theory Spec2Isabelle
  imports Main "HOL-Library.Word" "HOL-Library.Multiset"
begin

section \<open>Python values\<close>

text \<open>
  Python's unbounded integers are \<open>int\<close>. A \<open>bytes\<close> object is a list of 8-bit words. A
  \<open>str\<close> is the list of its Unicode code points. An exception that a called function raises
  is the \<open>Inl\<close> of a sum; only the exception classes that the modelled code can meet are
  listed.
\<close>

type_synonym byte = "8 word"
type_synonym bytes = "byte list"
type_synonym pystr = "nat list"

datatype exn =
  StructError | ValueError | UnicodeDecodeError | UnicodeEncodeError | IndexError |
  ConnectionResetError

text \<open>\<open>UnicodeDecodeError\<close> and \<open>UnicodeEncodeError\<close> are subclasses of \<open>ValueError\<close>.\<close>

fun is_ValueError :: "exn \<Rightarrow> bool" where
  "is_ValueError ValueError = True"
| "is_ValueError UnicodeDecodeError = True"
| "is_ValueError UnicodeEncodeError = True"
| "is_ValueError StructError = False"
| "is_ValueError IndexError = False"
| "is_ValueError ConnectionResetError = False"

text \<open>A \<open>str\<close> literal and a \<open>bytes\<close> literal of ASCII characters.\<close>

definition str_lit :: "string \<Rightarrow> pystr" where
  "str_lit s = map of_char s"

definition bytes_lit :: "string \<Rightarrow> bytes" where
  "bytes_lit s = map of_char s"

section \<open>constants.py\<close>

definition MAGIC_COOKIE :: int where "MAGIC_COOKIE = 0xabcddcba"

definition MSG_TYPE_OFFER :: int where "MSG_TYPE_OFFER = 0x2"
definition MSG_TYPE_REQUEST :: int where "MSG_TYPE_REQUEST = 0x3"
definition MSG_TYPE_PAYLOAD :: int where "MSG_TYPE_PAYLOAD = 0x4"

definition RESULT_ROUND_NOT_OVER :: int where "RESULT_ROUND_NOT_OVER = 0x0"
definition RESULT_TIE :: int where "RESULT_TIE = 0x1"
definition RESULT_LOSS :: int where "RESULT_LOSS = 0x2"
definition RESULT_WIN :: int where "RESULT_WIN = 0x3"

definition ACTION_HIT :: bytes where "ACTION_HIT = bytes_lit ''Hittt''"
definition ACTION_STAND :: bytes where "ACTION_STAND = bytes_lit ''Stand''"

definition NAME_LENGTH :: nat where "NAME_LENGTH = 32"

definition SUITS :: "pystr list" where
  "SUITS = [str_lit ''H'', str_lit ''D'', str_lit ''C'', str_lit ''S'']"

definition get_card_value :: "int \<Rightarrow> int" where
  "get_card_value rank =
     (if rank = 1 then 11
      else if rank \<ge> 11 then 10
      else rank)"

section \<open>Cards\<close>

text \<open>
  A card is a pair \<open>(rank, suit)\<close>. The deck holds the suit as an index into \<open>SUITS\<close>; the
  dummy card \<open>(0, 'H')\<close> of an acknowledgement holds it as a one-character \<open>str\<close>.
\<close>

datatype pysuit = SuitIdx int | SuitChr pystr

type_synonym card = "int \<times> pysuit"

section \<open>The struct module, big-endian without alignment\<close>

datatype fmt = FI | FB | FH | Fs nat
datatype pyval = VInt int | VBytes bytes

fun be_encode :: "nat \<Rightarrow> int \<Rightarrow> bytes" where
  "be_encode 0 v = []"
| "be_encode (Suc k) v = be_encode k (v div 256) @ [word_of_int (v mod 256)]"

definition be_decode :: "bytes \<Rightarrow> int" where
  "be_decode bs = foldl (\<lambda>a b. a * 256 + uint b) 0 bs"

fun fmt_size :: "fmt \<Rightarrow> nat" where
  "fmt_size FI = 4"
| "fmt_size FB = 1"
| "fmt_size FH = 2"
| "fmt_size (Fs n) = n"

definition calcsize :: "fmt list \<Rightarrow> nat" where
  "calcsize fs = sum_list (map fmt_size fs)"

definition pack_uint :: "nat \<Rightarrow> pyval \<Rightarrow> exn + bytes" where
  "pack_uint k x =
     (case x of
        VInt v \<Rightarrow> if 0 \<le> v \<and> v < 256 ^ k then Inr (be_encode k v) else Inl StructError
      | VBytes b \<Rightarrow> Inl StructError)"

fun pack_item :: "fmt \<Rightarrow> pyval \<Rightarrow> exn + bytes" where
  "pack_item (Fs n) (VBytes b) = Inr (take n b @ replicate (n - length b) 0)"
| "pack_item (Fs n) (VInt v) = Inl StructError"
| "pack_item f x = pack_uint (fmt_size f) x"

fun struct_pack :: "fmt list \<Rightarrow> pyval list \<Rightarrow> exn + bytes" where
  "struct_pack [] [] = Inr []"
| "struct_pack (f # fs) (x # xs) =
     (case pack_item f x of
        Inl e \<Rightarrow> Inl e
      | Inr b \<Rightarrow> (case struct_pack fs xs of Inl e \<Rightarrow> Inl e | Inr bs \<Rightarrow> Inr (b @ bs)))"
| "struct_pack fs xs = Inl StructError"

fun unpack_item :: "fmt \<Rightarrow> bytes \<Rightarrow> pyval" where
  "unpack_item (Fs n) b = VBytes b"
| "unpack_item f b = VInt (be_decode b)"

fun unpack_items :: "fmt list \<Rightarrow> bytes \<Rightarrow> pyval list" where
  "unpack_items [] b = []"
| "unpack_items (f # fs) b =
     unpack_item f (take (fmt_size f) b) # unpack_items fs (drop (fmt_size f) b)"

definition struct_unpack :: "fmt list \<Rightarrow> bytes \<Rightarrow> exn + pyval list" where
  "struct_unpack fs b =
     (if length b = calcsize fs then Inr (unpack_items fs b) else Inl StructError)"


section \<open>Codecs of the str and bytes types\<close>

definition is_cont :: "nat \<Rightarrow> bool" where
  "is_cont b = (0x80 \<le> b \<and> b < 0xC0)"

fun utf8_dec :: "nat list \<Rightarrow> nat list" where
  "utf8_dec [] = []"
| "utf8_dec (b0 # bs) =
    (if b0 < 0x80 then b0 # utf8_dec bs
     else if b0 < 0xC2 then utf8_dec bs
     else if b0 < 0xE0 then
       (case bs of
          [] \<Rightarrow> []
        | b1 # r1 \<Rightarrow>
            if is_cont b1 then ((b0 - 0xC0) * 64 + (b1 - 0x80)) # utf8_dec r1
            else utf8_dec bs)
     else if b0 < 0xF0 then
       (case bs of
          [] \<Rightarrow> []
        | b1 # r1 \<Rightarrow>
            if \<not> is_cont b1 \<or> (if b1 < 0xA0 then b0 = 0xE0 else b0 = 0xED) then utf8_dec bs
            else
              (case r1 of
                 [] \<Rightarrow> []
               | b2 # r2 \<Rightarrow>
                   if is_cont b2
                   then ((b0 - 0xE0) * 4096 + (b1 - 0x80) * 64 + (b2 - 0x80)) # utf8_dec r2
                   else utf8_dec r1))
     else if b0 < 0xF5 then
       (case bs of
          [] \<Rightarrow> []
        | b1 # r1 \<Rightarrow>
            if \<not> is_cont b1 \<or> (if b1 < 0x90 then b0 = 0xF0 else b0 = 0xF4) then utf8_dec bs
            else
              (case r1 of
                 [] \<Rightarrow> []
               | b2 # r2 \<Rightarrow>
                   if \<not> is_cont b2 then utf8_dec r1
                   else
                     (case r2 of
                        [] \<Rightarrow> []
                      | b3 # r3 \<Rightarrow>
                          if is_cont b3
                          then ((b0 - 0xF0) * 262144 + (b1 - 0x80) * 4096 +
                                (b2 - 0x80) * 64 + (b3 - 0x80)) # utf8_dec r3
                          else utf8_dec r2)))
     else utf8_dec bs)"

definition utf8_decode_ignore :: "bytes \<Rightarrow> pystr" where
  "utf8_decode_ignore b = utf8_dec (map unat b)"

definition utf8_encode_cp :: "nat \<Rightarrow> nat list" where
  "utf8_encode_cp c =
     (if c < 0x80 then [c]
      else if c < 0x800 then [0xC0 + c div 64, 0x80 + c mod 64]
      else if c < 0x10000 then [0xE0 + c div 4096, 0x80 + (c div 64) mod 64, 0x80 + c mod 64]
      else [0xF0 + c div 262144, 0x80 + (c div 4096) mod 64, 0x80 + (c div 64) mod 64,
            0x80 + c mod 64])"

definition encodable :: "nat \<Rightarrow> bool" where
  "encodable c = (c < 0xD800 \<or> (0xE000 \<le> c \<and> c < 0x110000))"

definition utf8_encode :: "pystr \<Rightarrow> exn + bytes" where
  "utf8_encode s =
     (if list_all encodable s then Inr (map of_nat (concat (map utf8_encode_cp s)))
      else Inl UnicodeEncodeError)"

definition ascii_encode :: "pystr \<Rightarrow> exn + bytes" where
  "ascii_encode s =
     (if list_all (\<lambda>c. c < 128) s then Inr (map of_nat s) else Inl UnicodeEncodeError)"

definition ascii_decode :: "bytes \<Rightarrow> exn + pystr" where
  "ascii_decode b =
     (if list_all (\<lambda>x. unat x < 128) b then Inr (map unat b) else Inl UnicodeDecodeError)"

definition py_lower :: "pystr \<Rightarrow> pystr" where
  "py_lower s = map (\<lambda>c. if 65 \<le> c \<and> c \<le> 90 then c + 32 else c) s"

definition rstrip_nul :: "bytes \<Rightarrow> bytes" where
  "rstrip_nul b = rev (dropWhile (\<lambda>x. x = 0) (rev b))"

definition ljust_nul :: "nat \<Rightarrow> bytes \<Rightarrow> bytes" where
  "ljust_nul n b = b @ replicate (n - length b) 0"

definition py_getitem :: "'a list \<Rightarrow> int \<Rightarrow> exn + 'a" where
  "py_getitem xs i =
     (if 0 \<le> i \<and> i < int (length xs) then Inr (xs ! nat i)
      else if - int (length xs) \<le> i \<and> i < 0 then Inr (xs ! nat (int (length xs) + i))
      else Inl IndexError)"

subsection \<open>int(str) in base 10, on an ASCII str\<close>

definition is_space :: "nat \<Rightarrow> bool" where
  "is_space c = (c = 32 \<or> (9 \<le> c \<and> c \<le> 13))"

definition is_digit :: "nat \<Rightarrow> bool" where
  "is_digit c = (48 \<le> c \<and> c \<le> 57)"

fun digits_tail :: "int \<Rightarrow> pystr \<Rightarrow> int option" where
  "digits_tail acc [] = Some acc"
| "digits_tail acc (c # cs) =
     (if is_digit c then digits_tail (acc * 10 + int (c - 48)) cs
      else if c = 95 then
        (case cs of
           [] \<Rightarrow> None
         | d # ds \<Rightarrow> if is_digit d then digits_tail (acc * 10 + int (d - 48)) ds else None)
      else None)"

definition parse_digits :: "pystr \<Rightarrow> int option" where
  "parse_digits s =
     (case s of
        [] \<Rightarrow> None
      | c # cs \<Rightarrow> if is_digit c then digits_tail (int (c - 48)) cs else None)"

definition py_strip :: "pystr \<Rightarrow> pystr" where
  "py_strip s = rev (dropWhile is_space (rev (dropWhile is_space s)))"

definition py_int :: "pystr \<Rightarrow> exn + int" where
  "py_int s =
     (case py_strip s of
        [] \<Rightarrow> Inl ValueError
      | c # cs \<Rightarrow>
          if c = 43 then (case parse_digits cs of None \<Rightarrow> Inl ValueError | Some v \<Rightarrow> Inr v)
          else if c = 45 then (case parse_digits cs of None \<Rightarrow> Inl ValueError | Some v \<Rightarrow> Inr (- v))
          else (case parse_digits (c # cs) of None \<Rightarrow> Inl ValueError | Some v \<Rightarrow> Inr v))"

subsection \<open>The format spec 02d\<close>

fun dec_digits :: "nat \<Rightarrow> pystr" where
  "dec_digits n = (if n < 10 then [48 + n] else dec_digits (n div 10) @ [48 + n mod 10])"

definition format_02d :: "int \<Rightarrow> pystr" where
  "format_02d n =
     (if n < 0 then 45 # dec_digits (nat (- n))
      else if nat n < 10 then 48 # dec_digits (nat n)
      else dec_digits (nat n))"

section \<open>protocol.py\<close>

text \<open>A \<open>try\<close> block whose handler returns \<open>None\<close> for the exceptions it names.\<close>

definition except_None :: "(exn \<Rightarrow> bool) \<Rightarrow> exn + 'a option \<Rightarrow> exn + 'a option" where
  "except_None handled r =
     (case r of
        Inl e \<Rightarrow> if handled e then Inr None else Inl e
      | Inr v \<Rightarrow> Inr v)"

definition pad_name :: "pystr \<Rightarrow> exn + bytes" where
  "pad_name name =
     (case utf8_encode name of
        Inl e \<Rightarrow> Inl e
      | Inr b \<Rightarrow> Inr (ljust_nul NAME_LENGTH (take NAME_LENGTH b)))"

definition unpad_name :: "bytes \<Rightarrow> pystr" where
  "unpad_name name_bytes = utf8_decode_ignore (rstrip_nul name_bytes)"

definition OFFER_FORMAT :: "fmt list" where "OFFER_FORMAT = [FI, FB, FH, Fs 32]"
definition OFFER_SIZE :: nat where "OFFER_SIZE = calcsize OFFER_FORMAT"

definition pack_offer :: "int \<Rightarrow> pystr \<Rightarrow> exn + bytes" where
  "pack_offer tcp_port server_name =
     (case pad_name server_name of
        Inl e \<Rightarrow> Inl e
      | Inr name_bytes \<Rightarrow>
          struct_pack OFFER_FORMAT
            [VInt MAGIC_COOKIE, VInt MSG_TYPE_OFFER, VInt tcp_port, VBytes name_bytes])"

definition unpack_offer :: "bytes \<Rightarrow> exn + (int \<times> pystr) option" where
  "unpack_offer data =
     (if length data < OFFER_SIZE then Inr None
      else except_None (\<lambda>e. e = StructError)
        (case struct_unpack OFFER_FORMAT (take OFFER_SIZE data) of
           Inl e \<Rightarrow> Inl e
         | Inr [VInt magic, VInt msg_type, VInt tcp_port, VBytes name_bytes] \<Rightarrow>
             if magic \<noteq> MAGIC_COOKIE then Inr None
             else if msg_type \<noteq> MSG_TYPE_OFFER then Inr None
             else Inr (Some (tcp_port, unpad_name name_bytes))
         | Inr _ \<Rightarrow> Inl ValueError))"

definition REQUEST_FORMAT :: "fmt list" where "REQUEST_FORMAT = [FI, FB, FB, Fs 32]"
definition REQUEST_SIZE :: nat where "REQUEST_SIZE = calcsize REQUEST_FORMAT"

definition pack_request :: "int \<Rightarrow> pystr \<Rightarrow> exn + bytes" where
  "pack_request num_rounds client_name =
     (case pad_name client_name of
        Inl e \<Rightarrow> Inl e
      | Inr name_bytes \<Rightarrow>
          struct_pack REQUEST_FORMAT
            [VInt MAGIC_COOKIE, VInt MSG_TYPE_REQUEST, VInt num_rounds, VBytes name_bytes])"

definition unpack_request :: "bytes \<Rightarrow> exn + (int \<times> pystr) option" where
  "unpack_request data =
     (if length data < REQUEST_SIZE then Inr None
      else except_None (\<lambda>e. e = StructError)
        (case struct_unpack REQUEST_FORMAT (take REQUEST_SIZE data) of
           Inl e \<Rightarrow> Inl e
         | Inr [VInt magic, VInt msg_type, VInt num_rounds, VBytes name_bytes] \<Rightarrow>
             if magic \<noteq> MAGIC_COOKIE then Inr None
             else if msg_type \<noteq> MSG_TYPE_REQUEST then Inr None
             else Inr (Some (num_rounds, unpad_name name_bytes))
         | Inr _ \<Rightarrow> Inl ValueError))"

definition CLIENT_PAYLOAD_FORMAT :: "fmt list" where "CLIENT_PAYLOAD_FORMAT = [FI, FB, Fs 5]"
definition CLIENT_PAYLOAD_SIZE :: nat where "CLIENT_PAYLOAD_SIZE = calcsize CLIENT_PAYLOAD_FORMAT"

definition SERVER_PAYLOAD_FORMAT :: "fmt list" where
  "SERVER_PAYLOAD_FORMAT = [FI, FB, FB, Fs 2, Fs 1]"
definition SERVER_PAYLOAD_SIZE :: nat where "SERVER_PAYLOAD_SIZE = calcsize SERVER_PAYLOAD_FORMAT"

definition pack_client_payload :: "pystr \<Rightarrow> exn + bytes" where
  "pack_client_payload action =
     (let action_bytes = (if py_lower action = str_lit ''hit'' then ACTION_HIT else ACTION_STAND)
      in struct_pack CLIENT_PAYLOAD_FORMAT
           [VInt MAGIC_COOKIE, VInt MSG_TYPE_PAYLOAD, VBytes action_bytes])"

definition unpack_client_payload :: "bytes \<Rightarrow> exn + pystr option" where
  "unpack_client_payload data =
     (if length data < CLIENT_PAYLOAD_SIZE then Inr None
      else except_None (\<lambda>e. e = StructError)
        (case struct_unpack CLIENT_PAYLOAD_FORMAT (take CLIENT_PAYLOAD_SIZE data) of
           Inl e \<Rightarrow> Inl e
         | Inr [VInt magic, VInt msg_type, VBytes action_bytes] \<Rightarrow>
             if magic \<noteq> MAGIC_COOKIE then Inr None
             else if msg_type \<noteq> MSG_TYPE_PAYLOAD then Inr None
             else if action_bytes = ACTION_HIT then Inr (Some (str_lit ''hit''))
             else if action_bytes = ACTION_STAND then Inr (Some (str_lit ''stand''))
             else Inr None
         | Inr _ \<Rightarrow> Inl ValueError))"

definition pack_server_payload :: "int \<Rightarrow> int \<Rightarrow> pysuit \<Rightarrow> exn + bytes" where
  "pack_server_payload result card_rank card_suit =
     (case ascii_encode (format_02d card_rank) of
        Inl e \<Rightarrow> Inl e
      | Inr rank_str \<Rightarrow>
          (case (case card_suit of
                   SuitIdx i \<Rightarrow>
                     (case py_getitem SUITS i of Inl e \<Rightarrow> Inl e | Inr s \<Rightarrow> ascii_encode s)
                 | SuitChr s \<Rightarrow> ascii_encode s) of
             Inl e \<Rightarrow> Inl e
           | Inr suit_char \<Rightarrow>
               struct_pack SERVER_PAYLOAD_FORMAT
                 [VInt MAGIC_COOKIE, VInt MSG_TYPE_PAYLOAD, VInt result,
                  VBytes rank_str, VBytes suit_char]))"

definition unpack_server_payload :: "bytes \<Rightarrow> exn + (int \<times> int \<times> pystr) option" where
  "unpack_server_payload data =
     (if length data < SERVER_PAYLOAD_SIZE then Inr None
      else except_None (\<lambda>e. e = StructError \<or> is_ValueError e)
        (case struct_unpack SERVER_PAYLOAD_FORMAT (take SERVER_PAYLOAD_SIZE data) of
           Inl e \<Rightarrow> Inl e
         | Inr [VInt magic, VInt msg_type, VInt result, VBytes rank_bytes, VBytes suit_byte] \<Rightarrow>
             if magic \<noteq> MAGIC_COOKIE then Inr None
             else if msg_type \<noteq> MSG_TYPE_PAYLOAD then Inr None
             else
               (case ascii_decode rank_bytes of
                  Inl e \<Rightarrow> Inl e
                | Inr rank_str \<Rightarrow>
                    (case py_int rank_str of
                       Inl e \<Rightarrow> Inl e
                     | Inr card_rank \<Rightarrow>
                         (case ascii_decode suit_byte of
                            Inl e \<Rightarrow> Inl e
                          | Inr card_suit \<Rightarrow> Inr (Some (result, card_rank, card_suit)))))
         | Inr _ \<Rightarrow> Inl ValueError))"

definition card_to_string :: "int \<Rightarrow> pysuit \<Rightarrow> exn + unit" where
  "card_to_string rank suit =
     (case suit of
        SuitIdx i \<Rightarrow> (case py_getitem SUITS i of Inl e \<Rightarrow> Inl e | Inr s \<Rightarrow> Inr ())
      | SuitChr s \<Rightarrow> Inr ())"

section \<open>server.py\<close>

subsection \<open>random.shuffle\<close>

type_synonym rng = "nat \<Rightarrow> nat"

definition randbelow :: "nat \<Rightarrow> rng \<Rightarrow> nat \<times> rng" where
  "randbelow n g = (g 0 mod n, \<lambda>i. g (Suc i))"

fun shuffle_from :: "nat \<Rightarrow> 'a list \<Rightarrow> rng \<Rightarrow> 'a list \<times> rng" where
  "shuffle_from 0 x g = (x, g)"
| "shuffle_from (Suc k) x g =
     (case randbelow (Suc k + 1) g of
        (j, g') \<Rightarrow> shuffle_from k (x[Suc k := x ! j, j := x ! Suc k]) g')"

definition shuffle :: "'a list \<Rightarrow> rng \<Rightarrow> 'a list \<times> rng" where
  "shuffle x g = shuffle_from (length x - 1) x g"

subsection \<open>class Deck\<close>

record Deck =
  cards :: "card list"
  random :: rng

definition full_deck :: "card list" where
  "full_deck = concat (map (\<lambda>rank. map (\<lambda>suit. (rank, SuitIdx suit)) [0..3]) [1..13])"

definition reset :: "Deck \<Rightarrow> Deck" where
  "reset d = (case shuffle full_deck (random d) of (cs, g) \<Rightarrow> \<lparr>cards = cs, random = g\<rparr>)"

definition draw :: "Deck \<Rightarrow> exn + (card \<times> Deck)" where
  "draw d =
     (let d1 = (if length (cards d) = 0 then reset d else d)
      in case cards d1 of
           [] \<Rightarrow> Inl IndexError
         | _ # _ \<Rightarrow> Inr (last (cards d1), d1\<lparr>cards := butlast (cards d1)\<rparr>))"

fun draw_many :: "nat \<Rightarrow> Deck \<Rightarrow> exn + (card list \<times> Deck)" where
  "draw_many 0 d = Inr ([], d)"
| "draw_many (Suc n) d =
     (case draw d of
        Inl e \<Rightarrow> Inl e
      | Inr (c, d1) \<Rightarrow>
          (case draw_many n d1 of Inl e \<Rightarrow> Inl e | Inr (cs, d2) \<Rightarrow> Inr (c # cs, d2)))"

subsection \<open>BlackjackGame.calculate_sum\<close>

text \<open>Python's \<open>sum\<close> adds the items to 0 from left to right.\<close>

definition py_sum :: "int list \<Rightarrow> int" where
  "py_sum xs = foldl (+) 0 xs"

definition calculate_sum :: "card list \<Rightarrow> int" where
  "calculate_sum hand = py_sum (map (\<lambda>(rank, suit). get_card_value rank) hand)"

subsection \<open>class BlackjackGame\<close>

datatype event = Sent bytes | Received "exn + bytes"

record BlackjackGame =
  deck :: Deck
  player_cards :: "card list"
  dealer_cards :: "card list"
  player_sum :: int
  dealer_sum :: int
  inbox :: "(exn + bytes) list"
  wire :: "event list"

definition send_card :: "card \<Rightarrow> int \<Rightarrow> BlackjackGame \<Rightarrow> exn + BlackjackGame" where
  "send_card c result g =
     (case c of
        (rank, suit) \<Rightarrow>
          (case pack_server_payload result rank suit of
             Inl e \<Rightarrow> Inl e
           | Inr payload \<Rightarrow> Inr (g\<lparr>wire := wire g @ [Sent payload]\<rparr>)))"

definition recv :: "BlackjackGame \<Rightarrow> (exn + bytes) \<times> BlackjackGame" where
  "recv g =
     (case inbox g of
        [] \<Rightarrow> (Inr [], g\<lparr>wire := wire g @ [Received (Inr [])]\<rparr>)
      | r # rest \<Rightarrow> (r, g\<lparr>inbox := rest, wire := wire g @ [Received r]\<rparr>))"

definition receive_action :: "BlackjackGame \<Rightarrow> pystr option \<times> BlackjackGame" where
  "receive_action g =
     (case recv g of
        (Inl e, g1) \<Rightarrow> (None, g1)
      | (Inr data, g1) \<Rightarrow>
          if data = [] then (None, g1)
          else (case unpack_client_payload data of
                  Inl e \<Rightarrow> (None, g1)
                | Inr action \<Rightarrow> (action, g1)))"

datatype flow = Returned "pystr option" | Fallthrough

function player_turn :: "BlackjackGame \<Rightarrow> exn + (flow \<times> BlackjackGame)" where
  "player_turn g =
     (if player_sum g < 21 then
        (case receive_action g of
           (None, g1) \<Rightarrow> Inr (Returned None, g1)
         | (Some action, g1) \<Rightarrow>
             if action = str_lit ''stand'' then
               (case send_card (0, SuitChr (str_lit ''H'')) RESULT_ROUND_NOT_OVER g1 of
                  Inl e \<Rightarrow> Inl e
                | Inr g2 \<Rightarrow> Inr (Fallthrough, g2))
             else if action = str_lit ''hit'' then
               (case draw (deck g1) of
                  Inl e \<Rightarrow> Inl e
                | Inr (new_card, d) \<Rightarrow>
                    (let g2 = g1\<lparr>deck := d,
                                   player_cards := player_cards g1 @ [new_card],
                                   player_sum := calculate_sum (player_cards g1 @ [new_card])\<rparr>
                     in case card_to_string (fst new_card) (snd new_card) of
                          Inl e \<Rightarrow> Inl e
                        | Inr u \<Rightarrow>
                            if player_sum g2 > 21 then
                              (case send_card new_card RESULT_LOSS g2 of
                                 Inl e \<Rightarrow> Inl e
                               | Inr g3 \<Rightarrow> Inr (Returned (Some (str_lit ''loss'')), g3))
                            else
                              (case send_card new_card RESULT_ROUND_NOT_OVER g2 of
                                 Inl e \<Rightarrow> Inl e
                               | Inr g3 \<Rightarrow> player_turn g3)))
             else player_turn g1)
      else Inr (Fallthrough, g))"
  by pat_completeness auto

function dealer_turn :: "BlackjackGame \<Rightarrow> exn + BlackjackGame" where
  "dealer_turn g =
     (if dealer_sum g < 17 then
        (case draw (deck g) of
           Inl e \<Rightarrow> Inl e
         | Inr (new_card, d) \<Rightarrow>
             (let g1 = g\<lparr>deck := d,
                          dealer_cards := dealer_cards g @ [new_card],
                          dealer_sum := calculate_sum (dealer_cards g @ [new_card])\<rparr>
              in case card_to_string (fst new_card) (snd new_card) of
                   Inl e \<Rightarrow> Inl e
                 | Inr u \<Rightarrow>
                     (case send_card new_card RESULT_ROUND_NOT_OVER g1 of
                        Inl e \<Rightarrow> Inl e
                      | Inr g2 \<Rightarrow> dealer_turn g2)))
      else Inr g)"
  by pat_completeness auto


definition deal_initial :: "BlackjackGame \<Rightarrow> exn + (card \<times> BlackjackGame)" where
  "deal_initial g0 =
     (let g = g0\<lparr>deck := reset (deck g0), player_cards := [], dealer_cards := []\<rparr>
      in case draw (deck g) of
           Inl e \<Rightarrow> Inl e
         | Inr (card1, d1) \<Rightarrow>
         (case draw d1 of
           Inl e \<Rightarrow> Inl e
         | Inr (card2, d2) \<Rightarrow>
         (case draw d2 of
           Inl e \<Rightarrow> Inl e
         | Inr (dealer_card1, d3) \<Rightarrow>
         (case draw d3 of
           Inl e \<Rightarrow> Inl e
         | Inr (dealer_card2, d4) \<Rightarrow>
         (let g1 = g\<lparr>deck := d4,
                      player_cards := [card1, card2],
                      player_sum := calculate_sum [card1, card2],
                      dealer_cards := [dealer_card1, dealer_card2]\<rparr>
          in case card_to_string (fst card1) (snd card1) of
               Inl e \<Rightarrow> Inl e
             | Inr u1 \<Rightarrow>
             (case card_to_string (fst card2) (snd card2) of
               Inl e \<Rightarrow> Inl e
             | Inr u2 \<Rightarrow>
             (case card_to_string (fst dealer_card1) (snd dealer_card1) of
               Inl e \<Rightarrow> Inl e
             | Inr u3 \<Rightarrow>
             (case send_card card1 RESULT_ROUND_NOT_OVER g1 of
               Inl e \<Rightarrow> Inl e
             | Inr g2 \<Rightarrow>
             (case send_card card2 RESULT_ROUND_NOT_OVER g2 of
               Inl e \<Rightarrow> Inl e
             | Inr g3 \<Rightarrow>
             (case send_card dealer_card1 RESULT_ROUND_NOT_OVER g3 of
               Inl e \<Rightarrow> Inl e
             | Inr g4 \<Rightarrow> Inr (dealer_card2, g4)))))))))))"

definition dealer_reveal :: "card \<Rightarrow> BlackjackGame \<Rightarrow> exn + BlackjackGame" where
  "dealer_reveal dealer_card2 g =
     (case card_to_string (fst dealer_card2) (snd dealer_card2) of
        Inl e \<Rightarrow> Inl e
      | Inr u \<Rightarrow>
          send_card dealer_card2 RESULT_ROUND_NOT_OVER
            (g\<lparr>dealer_sum := calculate_sum (dealer_cards g)\<rparr>))"

definition determine_winner :: "BlackjackGame \<Rightarrow> exn + (pystr option \<times> BlackjackGame)" where
  "determine_winner g =
     (case (if dealer_sum g > 21 then (str_lit ''win'', RESULT_WIN)
            else if player_sum g > dealer_sum g then (str_lit ''win'', RESULT_WIN)
            else if dealer_sum g > player_sum g then (str_lit ''loss'', RESULT_LOSS)
            else (str_lit ''tie'', RESULT_TIE)) of
        (result, result_code) \<Rightarrow>
          (case send_card (0, SuitChr (str_lit ''H'')) result_code g of
             Inl e \<Rightarrow> Inl e
           | Inr g1 \<Rightarrow> Inr (Some result, g1)))"

definition dealer_phase :: "card \<Rightarrow> BlackjackGame \<Rightarrow> exn + (pystr option \<times> BlackjackGame)" where
  "dealer_phase dealer_card2 g =
     (case dealer_reveal dealer_card2 g of
        Inl e \<Rightarrow> Inl e
      | Inr g1 \<Rightarrow>
          (case dealer_turn g1 of
             Inl e \<Rightarrow> Inl e
           | Inr g2 \<Rightarrow> determine_winner g2))"

definition round_from_player_turn ::
  "card \<Rightarrow> BlackjackGame \<Rightarrow> exn + (pystr option \<times> BlackjackGame)" where
  "round_from_player_turn dealer_card2 g =
     (case player_turn g of
        Inl e \<Rightarrow> Inl e
      | Inr (Returned r, g1) \<Rightarrow> Inr (r, g1)
      | Inr (Fallthrough, g1) \<Rightarrow> dealer_phase dealer_card2 g1)"

definition play_round :: "BlackjackGame \<Rightarrow> exn + (pystr option \<times> BlackjackGame)" where
  "play_round g0 =
     (case deal_initial g0 of
        Inl e \<Rightarrow> Inl e
      | Inr (dealer_card2, g) \<Rightarrow> round_from_player_turn dealer_card2 g)"

subsection \<open>Measures of the dealer's loop\<close>

definition good_card :: "card \<Rightarrow> bool" where
  "good_card c = (2 \<le> get_card_value (fst c))"

definition dealer_m1 :: "BlackjackGame \<Rightarrow> nat" where
  "dealer_m1 g = length (dropWhile good_card (cards (deck g)))"

definition dealer_m2 :: "BlackjackGame \<Rightarrow> nat" where
  "dealer_m2 g = (if dealer_sum g = calculate_sum (dealer_cards g) then 0 else 1)"

definition dealer_m3 :: "BlackjackGame \<Rightarrow> nat" where
  "dealer_m3 g = nat (17 - calculate_sum (dealer_cards g))"

subsection \<open>Well-formed decks and the message of a card\<close>

text \<open>
  Every deck that \<open>reset\<close> and \<open>draw\<close> produce holds cards of the full deck only. An event
  is the message of a card when it is the sending of the payload that
  \<open>pack_server_payload\<close> returns for the card and the result code.
\<close>

definition deck_ok :: "Deck \<Rightarrow> bool" where
  "deck_ok d = (set (cards d) \<subseteq> set full_deck)"

definition is_card_msg :: "int \<Rightarrow> card \<Rightarrow> event \<Rightarrow> bool" where
  "is_card_msg result c ev =
     (case pack_server_payload result (fst c) (snd c) of
        Inl e \<Rightarrow> False
      | Inr payload \<Rightarrow> ev = Sent payload)"

text \<open>What the next call of \<open>recv\<close> returns: the next chunk, or \<open>b''\<close> once the peer has closed.\<close>

definition next_recv :: "BlackjackGame \<Rightarrow> exn + bytes" where
  "next_recv g = (case inbox g of [] \<Rightarrow> Inr [] | r # rest \<Rightarrow> r)"

section \<open>Hand totals\<close>

lemma py_sum_sum_list: "py_sum xs = sum_list xs"
proof -
  have "foldl (+) a xs = a + sum_list xs" for a :: int
    by (induction xs arbitrary: a) simp_all
  from this [of 0] show ?thesis by (simp add: py_sum_def)
qed

lemma calculate_sum_Nil: "calculate_sum [] = 0"
  by (simp add: calculate_sum_def py_sum_sum_list)

lemma calculate_sum_Cons:
  "calculate_sum (c # cs) = get_card_value (fst c) + calculate_sum cs"
  by (simp add: calculate_sum_def py_sum_sum_list case_prod_beta)

lemma calculate_sum_append:
  "calculate_sum (xs @ ys) = calculate_sum xs + calculate_sum ys"
  by (simp add: calculate_sum_def py_sum_sum_list)

lemma calculate_sum_snoc:
  "calculate_sum (cs @ [c]) = calculate_sum cs + get_card_value (fst c)"
  by (simp add: calculate_sum_append calculate_sum_Cons calculate_sum_Nil)

text \<open>
  C8. For every rank from 1 to 13 the card value is 11 for the ace (rank 1), 10 for a
  jack, queen or king (rank 11 and above) and the rank itself otherwise. The total of a
  hand of such cards is the plain sum of these values: every ace counts 11, every face
  card 10 and every number card its rank, whatever the other cards are, so no ace is ever
  re-valued to 1.
\<close>

theorem card_value_and_hand_total:
  "(1 \<le> r \<and> r \<le> 13 \<longrightarrow>
      get_card_value r = (if r = 1 then 11 else if 11 \<le> r then 10 else r)) \<and>
   ((\<forall>c \<in> set hand. 1 \<le> fst c \<and> fst c \<le> 13) \<longrightarrow>
      calculate_sum hand =
        11 * int (length (filter (\<lambda>c. fst c = 1) hand)) +
        10 * int (length (filter (\<lambda>c. 11 \<le> fst c) hand)) +
        sum_list (map fst (filter (\<lambda>c. 2 \<le> fst c \<and> fst c \<le> 10) hand)))"
proof (intro conjI impI)
  show "get_card_value r = (if r = 1 then 11 else if 11 \<le> r then 10 else r)"
    by (simp add: get_card_value_def)
next
  assume "\<forall>c \<in> set hand. 1 \<le> fst c \<and> fst c \<le> 13"
  then show "calculate_sum hand =
        11 * int (length (filter (\<lambda>c. fst c = 1) hand)) +
        10 * int (length (filter (\<lambda>c. 11 \<le> fst c) hand)) +
        sum_list (map fst (filter (\<lambda>c. 2 \<le> fst c \<and> fst c \<le> 10) hand))"
  proof (induction hand)
    case Nil
    show ?case by (simp add: calculate_sum_Nil)
  next
    case (Cons c cs)
    then show ?case
      by (auto simp: calculate_sum_Cons get_card_value_def)
  qed
qed

theorem card_value_and_hand_total_witness:
  "get_card_value 12 = 10 \<and>
   calculate_sum [(1, SuitIdx 0), (1, SuitIdx 3), (13, SuitIdx 2), (7, SuitIdx 1)] = 39"
  using card_value_and_hand_total
    [of 12 "[(1, SuitIdx 0), (1, SuitIdx 3), (13, SuitIdx 2), (7, SuitIdx 1)]"]
  by simp


section \<open>The deck and the loops of a round\<close>

lemma shuffle_from_mset:
  "k < length x \<Longrightarrow> mset (fst (shuffle_from k x g)) = mset x"
proof (induction k arbitrary: x g)
  case 0
  show ?case by simp
next
  case (Suc k)
  have j: "g 0 mod (Suc k + 1) < length x"
    using Suc.prems by (metis Suc_eq_plus1 Suc_leI less_le_trans mod_less_divisor zero_less_Suc)
  have "mset (x[Suc k := x ! (g 0 mod (Suc k + 1)), g 0 mod (Suc k + 1) := x ! Suc k]) = mset x"
    using Suc.prems j by (simp add: mset_swap)
  moreover have "k < length (x[Suc k := x ! (g 0 mod (Suc k + 1)), g 0 mod (Suc k + 1) := x ! Suc k])"
    using Suc.prems by simp
  ultimately show ?case
    using Suc.IH by (simp add: randbelow_def)
qed

lemma shuffle_mset: "mset (fst (shuffle x g)) = mset x"
proof (cases x)
  case Nil
  then show ?thesis by (simp add: shuffle_def)
next
  case (Cons a as)
  then show ?thesis by (simp add: shuffle_def shuffle_from_mset)
qed

lemma reset_mset: "mset (cards (reset d)) = mset full_deck"
  using shuffle_mset [of full_deck "random d"]
  by (cases "shuffle full_deck (random d)") (simp add: reset_def)

lemma full_deck_eval:
  "full_deck =
    [(1, SuitIdx 0), (1, SuitIdx 1), (1, SuitIdx 2), (1, SuitIdx 3),
     (2, SuitIdx 0), (2, SuitIdx 1), (2, SuitIdx 2), (2, SuitIdx 3),
     (3, SuitIdx 0), (3, SuitIdx 1), (3, SuitIdx 2), (3, SuitIdx 3),
     (4, SuitIdx 0), (4, SuitIdx 1), (4, SuitIdx 2), (4, SuitIdx 3),
     (5, SuitIdx 0), (5, SuitIdx 1), (5, SuitIdx 2), (5, SuitIdx 3),
     (6, SuitIdx 0), (6, SuitIdx 1), (6, SuitIdx 2), (6, SuitIdx 3),
     (7, SuitIdx 0), (7, SuitIdx 1), (7, SuitIdx 2), (7, SuitIdx 3),
     (8, SuitIdx 0), (8, SuitIdx 1), (8, SuitIdx 2), (8, SuitIdx 3),
     (9, SuitIdx 0), (9, SuitIdx 1), (9, SuitIdx 2), (9, SuitIdx 3),
     (10, SuitIdx 0), (10, SuitIdx 1), (10, SuitIdx 2), (10, SuitIdx 3),
     (11, SuitIdx 0), (11, SuitIdx 1), (11, SuitIdx 2), (11, SuitIdx 3),
     (12, SuitIdx 0), (12, SuitIdx 1), (12, SuitIdx 2), (12, SuitIdx 3),
     (13, SuitIdx 0), (13, SuitIdx 1), (13, SuitIdx 2), (13, SuitIdx 3)]"
  unfolding full_deck_def by (simp add: upto.simps)

lemma full_deck_set:
  "set full_deck = {(rank, SuitIdx suit) | rank suit. 1 \<le> rank \<and> rank \<le> 13 \<and> 0 \<le> suit \<and> suit \<le> 3}"
  unfolding full_deck_def by auto

lemma full_deck_distinct: "distinct full_deck"
  by (simp add: full_deck_eval)

lemma full_deck_length: "length full_deck = 52"
  by (simp add: full_deck_eval)


lemma reset_set: "set (cards (reset d)) = set full_deck"
  using reset_mset [of d] by (metis set_mset_mset)

lemma reset_length: "length (cards (reset d)) = 52"
  using reset_mset [of d] full_deck_length by (metis size_mset)

lemma reset_nonempty: "cards (reset d) \<noteq> []"
  using reset_length [of d] by auto

lemma draw_nonempty:
  "cards d \<noteq> [] \<Longrightarrow> draw d = Inr (last (cards d), d\<lparr>cards := butlast (cards d)\<rparr>)"
  by (cases "cards d") (simp_all add: draw_def)

lemma draw_empty:
  "cards d = [] \<Longrightarrow>
   draw d = Inr (last (cards (reset d)), (reset d)\<lparr>cards := butlast (cards (reset d))\<rparr>)"
  using reset_nonempty [of d] by (cases "cards (reset d)") (simp_all add: draw_def)

lemma draw_cases:
  assumes "draw d = Inr (c, d')"
  shows "(cards d \<noteq> [] \<and> c = last (cards d) \<and> cards d' = butlast (cards d)) \<or>
         (cards d = [] \<and> c = last (cards (reset d)) \<and> cards d' = butlast (cards (reset d)))"
proof (cases "cards d = []")
  case True
  with assms draw_empty [of d] show ?thesis by auto
next
  case False
  with assms draw_nonempty [of d] show ?thesis by auto
qed

lemma draw_not_Inl: "draw d \<noteq> Inl e"
  using draw_empty [of d] draw_nonempty [of d] by (cases "cards d = []") auto

lemma send_card_fields:
  "send_card c r g = Inr g' \<Longrightarrow>
   inbox g' = inbox g \<and> deck g' = deck g \<and> player_cards g' = player_cards g \<and>
   dealer_cards g' = dealer_cards g \<and> player_sum g' = player_sum g \<and>
   dealer_sum g' = dealer_sum g"
  by (auto simp: send_card_def split: prod.splits sum.splits)

lemma receive_action_Some:
  "receive_action g = (Some a, g1) \<Longrightarrow> length (inbox g1) < length (inbox g)"
  by (auto simp: receive_action_def recv_def split: list.splits sum.splits if_splits)

termination player_turn
proof (relation "measure (\<lambda>g. length (inbox g))", goal_cases)
  case 1
  show ?case by simp
next
  case (2 g x y x2 b xa ya xb ba bb)
  from 2 have "receive_action g = (Some x2, y)" by simp
  then have "length (inbox y) < length (inbox g)" by (rule receive_action_Some)
  moreover from 2 send_card_fields [of xa RESULT_ROUND_NOT_OVER xb bb]
  have "inbox bb = inbox y" by simp
  ultimately show ?case by simp
next
  case (3 g x y x2)
  then have "receive_action g = (Some x2, y)" by simp
  then have "length (inbox y) < length (inbox g)" by (rule receive_action_Some)
  then show ?case by simp
qed


lemma full_deck_good: "c \<in> set full_deck \<Longrightarrow> good_card c"
  by (auto simp: full_deck_set good_card_def get_card_value_def)

lemma dropWhile_butlast_less:
  assumes "dropWhile P xs \<noteq> []"
  shows "length (dropWhile P (butlast xs)) < length (dropWhile P xs)"
proof -
  have xs: "xs = takeWhile P xs @ dropWhile P xs" by simp
  have "butlast xs = takeWhile P xs @ butlast (dropWhile P xs)"
    using assms by (metis butlast_append xs)
  then have "dropWhile P (butlast xs) = dropWhile P (butlast (dropWhile P xs))"
    by (metis dropWhile_append2 set_takeWhileD)
  moreover have "length (dropWhile P (butlast (dropWhile P xs))) \<le> length (butlast (dropWhile P xs))"
    by (rule length_dropWhile_le)
  moreover have "length (butlast (dropWhile P xs)) < length (dropWhile P xs)"
    using assms by simp
  ultimately show ?thesis by simp
qed

lemma dropWhile_Nil_iff: "dropWhile P xs = [] \<longleftrightarrow> (\<forall>x \<in> set xs. P x)"
  by (induction xs) auto


lemma dealer_step_decreases:
  assumes lt: "dealer_sum g < 17"
    and dr: "draw (deck g) = Inr (new_card, d)"
    and sc: "send_card new_card r
               (g\<lparr>deck := d, dealer_cards := dealer_cards g @ [new_card],
                   dealer_sum := calculate_sum (dealer_cards g @ [new_card])\<rparr>) = Inr g2"
  shows "(g2, g) \<in> measures [dealer_m1, dealer_m2, dealer_m3]"
proof -
  from send_card_fields [OF sc]
  have f: "deck g2 = d" "dealer_cards g2 = dealer_cards g @ [new_card]"
    "dealer_sum g2 = calculate_sum (dealer_cards g @ [new_card])"
    by simp_all
  have m2: "dealer_m2 g2 = 0" by (simp add: dealer_m2_def f)
  show ?thesis
  proof (cases "dropWhile good_card (cards (deck g)) = []")
    case False
    then have ne: "cards (deck g) \<noteq> []" by auto
    with draw_cases [OF dr] have "cards d = butlast (cards (deck g))" by auto
    with dropWhile_butlast_less [OF False] have "dealer_m1 g2 < dealer_m1 g"
      by (simp add: dealer_m1_def f)
    then show ?thesis by simp
  next
    case True
    then have allgood: "\<forall>x \<in> set (cards (deck g)). good_card x"
      by (simp add: dropWhile_Nil_iff)
    have "good_card new_card \<and> (\<forall>x \<in> set (cards d). good_card x)"
    proof (cases "cards (deck g) = []")
      case False
      with draw_cases [OF dr] have "new_card = last (cards (deck g))"
        "cards d = butlast (cards (deck g))" by auto
      with False allgood show ?thesis
        by (auto dest: in_set_butlastD)
    next
      case True
      with draw_cases [OF dr] have "new_card = last (cards (reset (deck g)))"
        "cards d = butlast (cards (reset (deck g)))" by auto
      moreover have "\<forall>x \<in> set (cards (reset (deck g))). good_card x"
        by (simp add: reset_set full_deck_good)
      ultimately show ?thesis
        using reset_nonempty [of "deck g"] by (auto dest: in_set_butlastD)
    qed
    then have good: "good_card new_card" and m1': "dealer_m1 g2 = 0"
      by (simp_all add: dealer_m1_def f dropWhile_Nil_iff)
    have m1: "dealer_m1 g = 0" using True by (simp add: dealer_m1_def)
    show ?thesis
    proof (cases "dealer_sum g = calculate_sum (dealer_cards g)")
      case False
      then have "dealer_m2 g = 1" by (simp add: dealer_m2_def)
      with m1 m1' m2 show ?thesis by simp
    next
      case True
      then have "dealer_m2 g = 0" by (simp add: dealer_m2_def)
      moreover have "dealer_m3 g2 < dealer_m3 g"
        using True lt good by (simp add: dealer_m3_def f calculate_sum_snoc good_card_def)
      ultimately show ?thesis using m1 m1' m2 by simp
    qed
  qed
qed

termination dealer_turn
proof (relation "measures [dealer_m1, dealer_m2, dealer_m3]", goal_cases)
  case 1
  show ?case by simp
next
  case (2 g b new_card d g1 u g2)
  then have "draw (deck g) = Inr (new_card, d)" by simp
  with 2 show ?case
    using dealer_step_decreases [of g new_card d RESULT_ROUND_NOT_OVER g2] by simp
qed

section \<open>The deck\<close>

lemma draw_many_prefix:
  "n \<le> length (cards d) \<Longrightarrow>
   draw_many n d =
     Inr (take n (rev (cards d)), d\<lparr>cards := take (length (cards d) - n) (cards d)\<rparr>)"
proof (induction n arbitrary: d)
  case 0
  show ?case by simp
next
  case (Suc n)
  then have ne: "cards d \<noteq> []" by auto
  let ?d1 = "d\<lparr>cards := butlast (cards d)\<rparr>"
  have len: "n \<le> length (cards ?d1)" using Suc.prems by simp
  have r: "rev (cards d) = last (cards d) # rev (butlast (cards d))"
    using ne by (metis append_butlast_last_id rev.simps(2) rev_rev_ident rev_swap rev_singleton_conv append_Cons append_Nil rev_append)
  have t: "take (length (cards d) - Suc n) (butlast (cards d)) =
           take (length (cards d) - Suc n) (cards d)"
    by (simp add: butlast_conv_take min_def)
  show ?case
    using Suc.IH [OF len] by (simp add: draw_nonempty [OF ne] r t)
qed

text \<open>
  C4. After \<open>reset()\<close> the deck holds the 52 distinct pairs of a rank from 1 to 13 and a
  suit index from 0 to 3, in some order. The next 52 calls of \<open>draw()\<close> succeed and
  return 52 pairwise distinct cards, the full set exactly once, and leave the deck empty.
  The 53rd \<open>draw()\<close> resets the deck and returns a card of the full set, leaving 51
  cards. From every deck state \<open>draw()\<close> returns a card: it never pops from an empty
  list.
\<close>

theorem deck_invariant:
  "mset (cards (reset d)) = mset full_deck \<and>
   distinct full_deck \<and> length full_deck = 52 \<and>
   set full_deck =
     {(rank, SuitIdx suit) | rank suit. 1 \<le> rank \<and> rank \<le> 13 \<and> 0 \<le> suit \<and> suit \<le> 3} \<and>
   (\<exists>cs d1. draw_many 52 (reset d) = Inr (cs, d1) \<and>
      length cs = 52 \<and> distinct cs \<and> set cs = set full_deck \<and> cards d1 = [] \<and>
      (\<exists>c d2. draw d1 = Inr (c, d2) \<and> c \<in> set full_deck \<and> length (cards d2) = 51)) \<and>
   (\<exists>c d'. draw d0 = Inr (c, d'))"
proof (intro conjI)
  show "mset (cards (reset d)) = mset full_deck" by (rule reset_mset)
  show "distinct full_deck" by (rule full_deck_distinct)
  show "length full_deck = 52" by (rule full_deck_length)
  show "set full_deck =
     {(rank, SuitIdx suit) | rank suit. 1 \<le> rank \<and> rank \<le> 13 \<and> 0 \<le> suit \<and> suit \<le> 3}"
    by (rule full_deck_set)
  show "\<exists>c d'. draw d0 = Inr (c, d')"
    using draw_empty [of d0] draw_nonempty [of d0] by (cases "cards d0 = []") auto
  let ?cs = "rev (cards (reset d))"
  let ?d1 = "(reset d)\<lparr>cards := []\<rparr>"
  have dm: "draw_many 52 (reset d) = Inr (?cs, ?d1)"
    using draw_many_prefix [of 52 "reset d"] by (simp add: reset_length)
  have "distinct (cards (reset d))"
    using reset_mset [of d] full_deck_distinct by (metis mset_eq_imp_distinct_iff)
  then have dist: "distinct ?cs" by simp
  have st: "set ?cs = set full_deck" by (simp add: reset_set)
  have e: "cards ?d1 = []" by simp
  let ?r = "reset ?d1"
  have d53: "draw ?d1 = Inr (last (cards ?r), ?r\<lparr>cards := butlast (cards ?r)\<rparr>)"
    using draw_empty [OF e] .
  have "last (cards ?r) \<in> set (cards ?r)"
    using reset_nonempty [of ?d1] by simp
  then have mem: "last (cards ?r) \<in> set full_deck" by (simp add: reset_set)
  have l51: "length (cards (?r\<lparr>cards := butlast (cards ?r)\<rparr>)) = 51"
    by (simp add: reset_length)
  have inner: "\<exists>c d2. draw ?d1 = Inr (c, d2) \<and> c \<in> set full_deck \<and> length (cards d2) = 51"
    using d53 mem l51 by blast
  have len: "length ?cs = 52" by (simp add: reset_length)
  show "\<exists>cs d1. draw_many 52 (reset d) = Inr (cs, d1) \<and>
      length cs = 52 \<and> distinct cs \<and> set cs = set full_deck \<and> cards d1 = [] \<and>
      (\<exists>c d2. draw d1 = Inr (c, d2) \<and> c \<in> set full_deck \<and> length (cards d2) = 51)"
    using dm len dist st e inner by blast
qed

theorem deck_invariant_witness:
  "mset (cards (reset \<lparr>cards = [], random = (\<lambda>i. 7 * i + 3)\<rparr>)) = mset full_deck \<and>
   distinct full_deck \<and> length full_deck = 52 \<and>
   set full_deck =
     {(rank, SuitIdx suit) | rank suit. 1 \<le> rank \<and> rank \<le> 13 \<and> 0 \<le> suit \<and> suit \<le> 3} \<and>
   (\<exists>cs d1. draw_many 52 (reset \<lparr>cards = [], random = (\<lambda>i. 7 * i + 3)\<rparr>) = Inr (cs, d1) \<and>
      length cs = 52 \<and> distinct cs \<and> set cs = set full_deck \<and> cards d1 = [] \<and>
      (\<exists>c d2. draw d1 = Inr (c, d2) \<and> c \<in> set full_deck \<and> length (cards d2) = 51)) \<and>
   (\<exists>c d'. draw \<lparr>cards = [], random = (\<lambda>i. 0)\<rparr> = Inr (c, d'))"
  by (rule deck_invariant)

section \<open>Sending cards and the dealer's loop\<close>

declare dec_digits.simps [simp del]

lemma dec_digits_digit: "c \<in> set (dec_digits n) \<Longrightarrow> 48 \<le> c \<and> c \<le> 57"
proof (induction n arbitrary: c rule: dec_digits.induct)
  case (1 n)
  show ?case
  proof (cases "n < 10")
    case True
    with "1.prems" show ?thesis by (simp add: dec_digits.simps [of n])
  next
    case False
    with "1.prems" have "c \<in> set (dec_digits (n div 10)) \<or> c = 48 + n mod 10"
      by (auto simp: dec_digits.simps [of n])
    then show ?thesis
    proof
      assume "c \<in> set (dec_digits (n div 10))"
      with "1.IH" False show ?thesis by simp
    next
      assume c: "c = 48 + n mod 10"
      have "n mod 10 < 10" by simp
      with c show ?thesis by linarith
    qed
  qed
qed

lemma format_02d_ascii: "list_all (\<lambda>c. c < 128) (format_02d r)"
  by (auto simp: format_02d_def list_all_iff dest!: dec_digits_digit)

lemma ascii_encode_format_02d: "ascii_encode (format_02d r) = Inr (map of_nat (format_02d r))"
  by (simp add: ascii_encode_def format_02d_ascii)

lemma suit_char_ok:
  "0 \<le> i \<Longrightarrow> i \<le> 3 \<Longrightarrow>
   (case py_getitem SUITS i of Inl e \<Rightarrow> Inl e | Inr s \<Rightarrow> ascii_encode s) =
     Inr (map of_nat (SUITS ! nat i))"
proof -
  assume "0 \<le> i" "i \<le> 3"
  then have "i = 0 \<or> i = 1 \<or> i = 2 \<or> i = 3" by auto
  then show ?thesis
    by (auto simp: py_getitem_def SUITS_def ascii_encode_def str_lit_def)
qed

lemma struct_pack_server_payload:
  "0 \<le> r \<Longrightarrow> r < 256 \<Longrightarrow>
   struct_pack SERVER_PAYLOAD_FORMAT
     [VInt MAGIC_COOKIE, VInt MSG_TYPE_PAYLOAD, VInt r, VBytes a, VBytes b] =
   Inr ([0xab, 0xcd, 0xdc, 0xba, 4, word_of_int r] @
        (take 2 a @ replicate (2 - length a) 0) @ (take 1 b @ replicate (1 - length b) 0))"
  by (simp add: SERVER_PAYLOAD_FORMAT_def MAGIC_COOKIE_def MSG_TYPE_PAYLOAD_def pack_uint_def
      eval_nat_numeral)

lemma pack_card_ok:
  assumes "c \<in> set full_deck" "0 \<le> r" "r < 256"
  shows "\<exists>b. pack_server_payload r (fst c) (snd c) = Inr b"
proof -
  from assms(1) obtain rank suit where c: "c = (rank, SuitIdx suit)" "0 \<le> suit" "suit \<le> 3"
    by (auto simp: full_deck_set)
  show ?thesis
    using assms(2,3) c
    by (simp add: pack_server_payload_def ascii_encode_format_02d suit_char_ok
        struct_pack_server_payload)
qed

lemma card_to_string_ok: "c \<in> set full_deck \<Longrightarrow> card_to_string (fst c) (snd c) = Inr ()"
proof -
  assume "c \<in> set full_deck"
  then obtain rank suit where c: "c = (rank, SuitIdx suit)" "0 \<le> suit" "suit \<le> 3"
    by (auto simp: full_deck_set)
  then show ?thesis
    by (simp add: card_to_string_def py_getitem_def SUITS_def)
qed

lemma send_card_ok:
  assumes "c \<in> set full_deck" "0 \<le> r" "r < 256"
  shows "\<exists>ev. is_card_msg r c ev \<and> send_card c r g = Inr (g\<lparr>wire := wire g @ [ev]\<rparr>)"
proof -
  from pack_card_ok [OF assms] obtain b where "pack_server_payload r (fst c) (snd c) = Inr b" ..
  then show ?thesis
    by (cases c) (simp add: send_card_def is_card_msg_def)
qed

lemma draw_ok:
  assumes "deck_ok d"
  shows "\<exists>c d'. draw d = Inr (c, d') \<and> c \<in> set full_deck \<and> deck_ok d'"
proof (cases "cards d = []")
  case True
  have "last (cards (reset d)) \<in> set full_deck"
    using reset_nonempty [of d] reset_set [of d] last_in_set by blast
  moreover have "set (butlast (cards (reset d))) \<subseteq> set full_deck"
    using reset_set [of d] by (auto dest: in_set_butlastD)
  ultimately show ?thesis
    using draw_empty [OF True] by (simp add: deck_ok_def)
next
  case False
  then have "last (cards d) \<in> set full_deck"
    using assms last_in_set by (auto simp: deck_ok_def)
  moreover have "set (butlast (cards d)) \<subseteq> set full_deck"
    using assms by (auto simp: deck_ok_def dest: in_set_butlastD)
  ultimately show ?thesis
    using draw_nonempty [OF False] by (simp add: deck_ok_def)
qed

declare dealer_turn.simps [simp del]

lemma card_value_ge_2: "c \<in> set full_deck \<Longrightarrow> 2 \<le> get_card_value (fst c)"
  using full_deck_good [of c] by (simp add: good_card_def)

lemma dealer_turn_run:
  assumes "deck_ok (deck g)" and "dealer_sum g = calculate_sum (dealer_cards g)"
  shows "\<exists>g' drawn evs.
           dealer_turn g = Inr g' \<and>
           17 \<le> dealer_sum g' \<and>
           dealer_sum g' = calculate_sum (dealer_cards g') \<and>
           dealer_cards g' = dealer_cards g @ drawn \<and>
           wire g' = wire g @ evs \<and>
           list_all2 (is_card_msg RESULT_ROUND_NOT_OVER) drawn evs \<and>
           (\<forall>k < length drawn. calculate_sum (dealer_cards g @ take k drawn) < 17) \<and>
           (\<forall>c \<in> set drawn. 2 \<le> get_card_value (fst c)) \<and>
           player_cards g' = player_cards g \<and> player_sum g' = player_sum g \<and>
           inbox g' = inbox g \<and> deck_ok (deck g')"
  using assms
proof (induction g rule: dealer_turn.induct)
  case (1 g)
  show ?case
  proof (cases "dealer_sum g < 17")
    case False
    then have "dealer_turn g = Inr g" by (simp add: dealer_turn.simps [of g])
    with False "1.prems" show ?thesis
      by (intro exI [of _ g] exI [of _ "[]"]) simp
  next
    case True
    from draw_ok [OF "1.prems"(1)] obtain c d
      where dr: "draw (deck g) = Inr (c, d)" and c: "c \<in> set full_deck" and d: "deck_ok d"
      by blast
    define g1 where "g1 = g\<lparr>deck := d, dealer_cards := dealer_cards g @ [c],
                            dealer_sum := calculate_sum (dealer_cards g @ [c])\<rparr>"
    have cs: "card_to_string (fst c) (snd c) = Inr ()" by (rule card_to_string_ok [OF c])
    from send_card_ok [OF c, of RESULT_ROUND_NOT_OVER g1] obtain ev
      where ev: "is_card_msg RESULT_ROUND_NOT_OVER c ev"
        and sc: "send_card c RESULT_ROUND_NOT_OVER g1 = Inr (g1\<lparr>wire := wire g1 @ [ev]\<rparr>)"
      by (auto simp: RESULT_ROUND_NOT_OVER_def)
    define g2 where "g2 = g1\<lparr>wire := wire g1 @ [ev]\<rparr>"
    have step: "dealer_turn g = dealer_turn g2"
      using True dr cs sc by (simp add: dealer_turn.simps [of g] g1_def g2_def)
    have "\<exists>g' drawn evs.
           dealer_turn g2 = Inr g' \<and>
           17 \<le> dealer_sum g' \<and>
           dealer_sum g' = calculate_sum (dealer_cards g') \<and>
           dealer_cards g' = dealer_cards g2 @ drawn \<and>
           wire g' = wire g2 @ evs \<and>
           list_all2 (is_card_msg RESULT_ROUND_NOT_OVER) drawn evs \<and>
           (\<forall>k < length drawn. calculate_sum (dealer_cards g2 @ take k drawn) < 17) \<and>
           (\<forall>c \<in> set drawn. 2 \<le> get_card_value (fst c)) \<and>
           player_cards g' = player_cards g2 \<and> player_sum g' = player_sum g2 \<and>
           inbox g' = inbox g2 \<and> deck_ok (deck g')"
    proof (rule "1.IH" [OF True dr refl g1_def cs])
      show "send_card c RESULT_ROUND_NOT_OVER g1 = Inr g2" using sc by (simp add: g2_def)
      show "deck_ok (deck g2)" using d by (simp add: g2_def g1_def)
      show "dealer_sum g2 = calculate_sum (dealer_cards g2)" by (simp add: g2_def g1_def)
    qed
    then obtain g' drawn evs where r:
      "dealer_turn g2 = Inr g'" "17 \<le> dealer_sum g'"
      "dealer_sum g' = calculate_sum (dealer_cards g')"
      "dealer_cards g' = dealer_cards g2 @ drawn" "wire g' = wire g2 @ evs"
      "list_all2 (is_card_msg RESULT_ROUND_NOT_OVER) drawn evs"
      "\<forall>k < length drawn. calculate_sum (dealer_cards g2 @ take k drawn) < 17"
      "\<forall>c \<in> set drawn. 2 \<le> get_card_value (fst c)"
      "player_cards g' = player_cards g2" "player_sum g' = player_sum g2"
      "inbox g' = inbox g2" "deck_ok (deck g')"
      by blast
    have below: "\<forall>k < length (c # drawn). calculate_sum (dealer_cards g @ take k (c # drawn)) < 17"
    proof (intro allI impI)
      fix k assume "k < length (c # drawn)"
      show "calculate_sum (dealer_cards g @ take k (c # drawn)) < 17"
      proof (cases k)
        case 0
        with True "1.prems"(2) show ?thesis by simp
      next
        case (Suc k')
        with \<open>k < length (c # drawn)\<close> have "k' < length drawn" by simp
        with r(7) have "calculate_sum (dealer_cards g2 @ take k' drawn) < 17" by blast
        then show ?thesis by (simp add: Suc g2_def g1_def)
      qed
    qed
    show ?thesis
    proof (intro exI [of _ g'] exI [of _ "c # drawn"] exI [of _ "ev # evs"] conjI)
      show "dealer_turn g = Inr g'" using step r(1) by simp
      show "17 \<le> dealer_sum g'" by (rule r(2))
      show "dealer_sum g' = calculate_sum (dealer_cards g')" by (rule r(3))
      show "dealer_cards g' = dealer_cards g @ c # drawn" using r(4) by (simp add: g2_def g1_def)
      show "wire g' = wire g @ ev # evs" using r(5) by (simp add: g2_def g1_def)
      show "list_all2 (is_card_msg RESULT_ROUND_NOT_OVER) (c # drawn) (ev # evs)"
        using ev r(6) by simp
      show "\<forall>k < length (c # drawn). calculate_sum (dealer_cards g @ take k (c # drawn)) < 17"
        by (rule below)
      show "\<forall>x \<in> set (c # drawn). 2 \<le> get_card_value (fst x)"
        using r(8) card_value_ge_2 [OF c] by simp
      show "player_cards g' = player_cards g" using r(9) by (simp add: g2_def g1_def)
      show "player_sum g' = player_sum g" using r(10) by (simp add: g2_def g1_def)
      show "inbox g' = inbox g" using r(11) by (simp add: g2_def g1_def)
      show "deck_ok (deck g')" by (rule r(12))
    qed
  qed
qed


text \<open>
  C7. The dealer's loop terminates: \<open>dealer_turn\<close> is a total function, its recursion
  proved to end from every state. Started with a well-formed deck and with the dealer's
  total equal to the sum of the dealer's hand, it returns without an exception; it draws
  exactly while the total is below 17 (before each draw the total is below 17, and on exit
  it is at least 17), it sends one message per drawn card, in the order of the draws and
  tagged \<open>RESULT_ROUND_NOT_OVER\<close>, and every drawn card is worth at least 2, so each
  iteration strictly increases the total. The player's hand and the pending input are
  not touched.
\<close>

theorem dealer_draw_loop:
  assumes "deck_ok (deck g)" and "dealer_sum g = calculate_sum (dealer_cards g)"
  shows "\<exists>g' drawn evs.
           dealer_turn g = Inr g' \<and>
           17 \<le> dealer_sum g' \<and>
           dealer_sum g' = calculate_sum (dealer_cards g') \<and>
           dealer_cards g' = dealer_cards g @ drawn \<and>
           wire g' = wire g @ evs \<and>
           list_all2 (is_card_msg RESULT_ROUND_NOT_OVER) drawn evs \<and>
           (\<forall>k < length drawn. calculate_sum (dealer_cards g @ take k drawn) < 17) \<and>
           (\<forall>c \<in> set drawn. 2 \<le> get_card_value (fst c)) \<and>
           player_cards g' = player_cards g \<and> player_sum g' = player_sum g \<and>
           inbox g' = inbox g \<and> deck_ok (deck g')"
  using assms by (rule dealer_turn_run)

theorem dealer_draw_loop_witness:
  "dealer_turn
     \<lparr>deck = \<lparr>cards = [(2, SuitIdx 0), (8, SuitIdx 1)], random = (\<lambda>i. 0)\<rparr>,
      player_cards = [(10, SuitIdx 3), (9, SuitIdx 1)],
      dealer_cards = [(6, SuitIdx 2), (5, SuitIdx 0)],
      player_sum = 19, dealer_sum = 11, inbox = [], wire = []\<rparr> =
   Inr \<lparr>deck = \<lparr>cards = [(2, SuitIdx 0)], random = (\<lambda>i. 0)\<rparr>,
        player_cards = [(10, SuitIdx 3), (9, SuitIdx 1)],
        dealer_cards = [(6, SuitIdx 2), (5, SuitIdx 0), (8, SuitIdx 1)],
        player_sum = 19, dealer_sum = 19, inbox = [],
        wire = [Sent [0xab, 0xcd, 0xdc, 0xba, 4, 0, 0x30, 0x38, 0x44]]\<rparr> \<and>
   (\<exists>g' drawn evs.
      dealer_turn
        \<lparr>deck = \<lparr>cards = [(2, SuitIdx 0), (8, SuitIdx 1)], random = (\<lambda>i. 0)\<rparr>,
         player_cards = [(10, SuitIdx 3), (9, SuitIdx 1)],
         dealer_cards = [(6, SuitIdx 2), (5, SuitIdx 0)],
         player_sum = 19, dealer_sum = 11, inbox = [], wire = []\<rparr> = Inr g' \<and>
      17 \<le> dealer_sum g' \<and>
      dealer_cards g' = [(6, SuitIdx 2), (5, SuitIdx 0)] @ drawn \<and>
      wire g' = evs \<and>
      list_all2 (is_card_msg RESULT_ROUND_NOT_OVER) drawn evs)"
proof -
  let ?g = "\<lparr>deck = \<lparr>cards = [(2, SuitIdx 0), (8, SuitIdx 1)], random = (\<lambda>i. 0)\<rparr>,
      player_cards = [(10, SuitIdx 3), (9, SuitIdx 1)],
      dealer_cards = [(6, SuitIdx 2), (5, SuitIdx 0)],
      player_sum = 19, dealer_sum = 11, inbox = [], wire = []\<rparr>"
  have ok: "deck_ok (deck ?g)" by (simp add: deck_ok_def full_deck_eval)
  have sm: "dealer_sum ?g = calculate_sum (dealer_cards ?g)"
    by (simp add: calculate_sum_def py_sum_def get_card_value_def)
  have run: "dealer_turn ?g =
     Inr \<lparr>deck = \<lparr>cards = [(2, SuitIdx 0)], random = (\<lambda>i. 0)\<rparr>,
        player_cards = [(10, SuitIdx 3), (9, SuitIdx 1)],
        dealer_cards = [(6, SuitIdx 2), (5, SuitIdx 0), (8, SuitIdx 1)],
        player_sum = 19, dealer_sum = 19, inbox = [],
        wire = [Sent [0xab, 0xcd, 0xdc, 0xba, 4, 0, 0x30, 0x38, 0x44]]\<rparr>"
    by (simp add: dealer_turn.simps draw_def card_to_string_def py_getitem_def SUITS_def
        send_card_def pack_server_payload_def ascii_encode_def format_02d_def dec_digits.simps
        str_lit_def struct_pack_server_payload RESULT_ROUND_NOT_OVER_def calculate_sum_def
        py_sum_def get_card_value_def)
  from dealer_draw_loop [OF ok sm] obtain g' drawn evs where
    "dealer_turn ?g = Inr g'" "17 \<le> dealer_sum g'"
    "dealer_cards g' = dealer_cards ?g @ drawn" "wire g' = wire ?g @ evs"
    "list_all2 (is_card_msg RESULT_ROUND_NOT_OVER) drawn evs"
    by blast
  then have "\<exists>g' drawn evs. dealer_turn ?g = Inr g' \<and> 17 \<le> dealer_sum g' \<and>
      dealer_cards g' = [(6, SuitIdx 2), (5, SuitIdx 0)] @ drawn \<and> wire g' = evs \<and>
      list_all2 (is_card_msg RESULT_ROUND_NOT_OVER) drawn evs"
    by (intro exI [of _ g'] exI [of _ drawn] exI [of _ evs]) simp
  with run show ?thesis by (intro conjI)
qed

section \<open>The player's turn\<close>

declare player_turn.simps [simp del]


lemma recv_eq:
  "recv g = (next_recv g, g\<lparr>inbox := tl (inbox g), wire := wire g @ [Received (next_recv g)]\<rparr>)"
  by (cases "inbox g") (simp_all add: recv_def next_recv_def)

lemma receive_action_state:
  "receive_action g = (a, g1) \<Longrightarrow>
   g1 = g\<lparr>inbox := tl (inbox g), wire := wire g @ [Received (next_recv g)]\<rparr>"
  by (auto simp: receive_action_def recv_eq split: sum.splits if_splits)

lemma struct_unpack_client:
  "length data \<ge> 10 \<Longrightarrow>
   struct_unpack CLIENT_PAYLOAD_FORMAT (take CLIENT_PAYLOAD_SIZE data) =
     Inr [VInt (be_decode (take 4 data)), VInt (be_decode (take 1 (drop 4 data))),
          VBytes (take 5 (drop 5 data))]"
  by (simp add: struct_unpack_def CLIENT_PAYLOAD_SIZE_def CLIENT_PAYLOAD_FORMAT_def calcsize_def
      min_def take_drop)

lemma unpack_client_payload_eq:
  "unpack_client_payload data =
     (if length data < 10 then Inr None
      else if be_decode (take 4 data) \<noteq> MAGIC_COOKIE then Inr None
      else if be_decode (take 1 (drop 4 data)) \<noteq> MSG_TYPE_PAYLOAD then Inr None
      else if take 5 (drop 5 data) = ACTION_HIT then Inr (Some (str_lit ''hit''))
      else if take 5 (drop 5 data) = ACTION_STAND then Inr (Some (str_lit ''stand''))
      else Inr None)"
proof (cases "length data < 10")
  case True
  then show ?thesis
    by (simp add: unpack_client_payload_def CLIENT_PAYLOAD_SIZE_def CLIENT_PAYLOAD_FORMAT_def
        calcsize_def)
next
  case False
  then have l: "length data \<ge> 10" by simp
  have sz: "CLIENT_PAYLOAD_SIZE = 10"
    by (simp add: CLIENT_PAYLOAD_SIZE_def CLIENT_PAYLOAD_FORMAT_def calcsize_def)
  show ?thesis
    unfolding unpack_client_payload_def struct_unpack_client [OF l]
    using False by (simp add: sz except_None_def)
qed

lemma receive_action_cases:
  "receive_action g = (a, g1) \<Longrightarrow>
   a = None \<or> a = Some (str_lit ''hit'') \<or> a = Some (str_lit ''stand'')"
  by (auto simp: receive_action_def recv_eq unpack_client_payload_eq split: sum.splits if_splits)


lemma str_lit_hit_stand: "str_lit ''hit'' \<noteq> str_lit ''stand''"
  by (simp add: str_lit_def)

lemma player_turn_exit: "\<not> player_sum g < 21 \<Longrightarrow> player_turn g = Inr (Fallthrough, g)"
  by (simp add: player_turn.simps [of g])

lemma player_turn_none:
  "player_sum g < 21 \<Longrightarrow> receive_action g = (None, g1) \<Longrightarrow>
   player_turn g = Inr (Returned None, g1)"
  by (simp add: player_turn.simps [of g])

lemma player_turn_stand:
  "player_sum g < 21 \<Longrightarrow> receive_action g = (Some (str_lit ''stand''), g1) \<Longrightarrow>
   send_card (0, SuitChr (str_lit ''H'')) RESULT_ROUND_NOT_OVER g1 = Inr g2 \<Longrightarrow>
   player_turn g = Inr (Fallthrough, g2)"
  by (simp add: player_turn.simps [of g])

lemma player_turn_bust:
  "player_sum g < 21 \<Longrightarrow> receive_action g = (Some (str_lit ''hit''), g1) \<Longrightarrow>
   draw (deck g1) = Inr (c, d) \<Longrightarrow> card_to_string (fst c) (snd c) = Inr u \<Longrightarrow>
   21 < calculate_sum (player_cards g1 @ [c]) \<Longrightarrow>
   send_card c RESULT_LOSS
     (g1\<lparr>deck := d, player_cards := player_cards g1 @ [c],
         player_sum := calculate_sum (player_cards g1 @ [c])\<rparr>) = Inr g3 \<Longrightarrow>
   player_turn g = Inr (Returned (Some (str_lit ''loss'')), g3)"
  using str_lit_hit_stand by (simp add: player_turn.simps [of g])

lemma player_turn_hit:
  "player_sum g < 21 \<Longrightarrow> receive_action g = (Some (str_lit ''hit''), g1) \<Longrightarrow>
   draw (deck g1) = Inr (c, d) \<Longrightarrow> card_to_string (fst c) (snd c) = Inr u \<Longrightarrow>
   \<not> 21 < calculate_sum (player_cards g1 @ [c]) \<Longrightarrow>
   send_card c RESULT_ROUND_NOT_OVER
     (g1\<lparr>deck := d, player_cards := player_cards g1 @ [c],
         player_sum := calculate_sum (player_cards g1 @ [c])\<rparr>) = Inr g3 \<Longrightarrow>
   player_turn g = player_turn g3"
  using str_lit_hit_stand by (simp add: player_turn.simps [of g])

lemma ack_card_ok:
  assumes "0 \<le> r" "r < 256"
  shows "\<exists>ev. is_card_msg r (0, SuitChr (str_lit ''H'')) ev \<and>
           send_card (0, SuitChr (str_lit ''H'')) r g = Inr (g\<lparr>wire := wire g @ [ev]\<rparr>)"
  using assms
  by (simp add: send_card_def is_card_msg_def pack_server_payload_def format_02d_ascii
      ascii_encode_def str_lit_def struct_pack_server_payload)

lemma player_turn_run:
  assumes "deck_ok (deck g)"
  shows "\<exists>f g' evs.
           player_turn g = Inr (f, g') \<and>
           wire g' = wire g @ evs \<and>
           deck_ok (deck g') \<and>
           (player_sum g = calculate_sum (player_cards g) \<longrightarrow>
              player_sum g' = calculate_sum (player_cards g')) \<and>
           dealer_cards g' = dealer_cards g \<and> dealer_sum g' = dealer_sum g \<and>
           (f = Fallthrough \<or> f = Returned None \<or>
            (f = Returned (Some (str_lit ''loss'')) \<and> 21 < player_sum g')) \<and>
           (if player_sum g < 21 then take 1 evs = [Received (next_recv g)]
            else evs = [] \<and> f = Fallthrough \<and> g' = g) \<and>
           (f \<noteq> Fallthrough \<or> 21 \<le> player_sum g' \<or>
            (evs \<noteq> [] \<and>
             is_card_msg RESULT_ROUND_NOT_OVER (0, SuitChr (str_lit ''H'')) (last evs)))"
  using assms
proof (induction g rule: player_turn.induct)
  case (1 g)
  show ?case
  proof (cases "player_sum g < 21")
    case False
    with "1.prems" show ?thesis
      by (intro exI [of _ Fallthrough] exI [of _ g] exI [of _ "[]"]) (simp add: player_turn_exit)
  next
    case True
    obtain a g1 where ra: "receive_action g = (a, g1)" by (cases "receive_action g")
    note g1 = receive_action_state [OF ra]
    from receive_action_cases [OF ra]
    consider "a = None" | "a = Some (str_lit ''hit'')" | "a = Some (str_lit ''stand'')" by blast
    then show ?thesis
    proof cases
      case 1
      with True ra have "player_turn g = Inr (Returned None, g1)" by (simp add: player_turn_none)
      with "1.prems" g1 True show ?thesis
        by (intro exI [of _ "Returned None"] exI [of _ g1] exI [of _ "[Received (next_recv g)]"])
           simp
    next
      case 3
      from ack_card_ok [of RESULT_ROUND_NOT_OVER g1] obtain ev where
        ev: "is_card_msg RESULT_ROUND_NOT_OVER (0, SuitChr (str_lit ''H'')) ev" and
        sc: "send_card (0, SuitChr (str_lit ''H'')) RESULT_ROUND_NOT_OVER g1 =
               Inr (g1\<lparr>wire := wire g1 @ [ev]\<rparr>)"
        by (auto simp: RESULT_ROUND_NOT_OVER_def)
      from player_turn_stand [OF True ra [unfolded 3] sc]
      have "player_turn g = Inr (Fallthrough, g1\<lparr>wire := wire g1 @ [ev]\<rparr>)" .
      with "1.prems" g1 True ev show ?thesis
        by (intro exI [of _ Fallthrough] exI [of _ "g1\<lparr>wire := wire g1 @ [ev]\<rparr>"]
              exI [of _ "[Received (next_recv g), ev]"]) simp
    next
      case 2
      have ok1: "deck_ok (deck g1)" using "1.prems"(1) g1 by simp
      from draw_ok [OF ok1] obtain c d
        where dr: "draw (deck g1) = Inr (c, d)" and c: "c \<in> set full_deck" and d: "deck_ok d"
        by blast
      define g2 where "g2 = g1\<lparr>deck := d, player_cards := player_cards g1 @ [c],
                              player_sum := calculate_sum (player_cards g1 @ [c])\<rparr>"
      have cs: "card_to_string (fst c) (snd c) = Inr ()" by (rule card_to_string_ok [OF c])
      show ?thesis
      proof (cases "21 < calculate_sum (player_cards g1 @ [c])")
        case bust: True
        from send_card_ok [OF c, of RESULT_LOSS g2] obtain ev
          where sc: "send_card c RESULT_LOSS g2 = Inr (g2\<lparr>wire := wire g2 @ [ev]\<rparr>)"
          by (auto simp: RESULT_LOSS_def)
        from player_turn_bust [OF True ra [unfolded 2] dr cs bust sc [unfolded g2_def]]
        have "player_turn g = Inr (Returned (Some (str_lit ''loss'')), g2\<lparr>wire := wire g2 @ [ev]\<rparr>)"
          by (simp add: g2_def)
        with "1.prems" g1 d bust True show ?thesis
          by (intro exI [of _ "Returned (Some (str_lit ''loss''))"]
                exI [of _ "g2\<lparr>wire := wire g2 @ [ev]\<rparr>"]
                exI [of _ "[Received (next_recv g), ev]"]) (simp add: g2_def)
      next
        case nobust: False
        from send_card_ok [OF c, of RESULT_ROUND_NOT_OVER g2] obtain ev
          where sc: "send_card c RESULT_ROUND_NOT_OVER g2 = Inr (g2\<lparr>wire := wire g2 @ [ev]\<rparr>)"
          by (auto simp: RESULT_ROUND_NOT_OVER_def)
        define g3 where "g3 = g2\<lparr>wire := wire g2 @ [ev]\<rparr>"
        from player_turn_hit [OF True ra [unfolded 2] dr cs nobust sc [unfolded g2_def]]
        have step: "player_turn g = player_turn g3" by (simp add: g3_def g2_def)
        have nb: "\<not> 21 < player_sum g2" using nobust by (simp add: g2_def)
        have sc3: "send_card c RESULT_ROUND_NOT_OVER g2 = Inr g3" using sc by (simp add: g3_def)
        have ok3: "deck_ok (deck g3)" using d by (simp add: g3_def g2_def)
        have sm3: "player_sum g3 = calculate_sum (player_cards g3)" by (simp add: g3_def g2_def)
        from "1.IH"(1) [OF True ra [symmetric] 2 str_lit_hit_stand refl dr refl g2_def cs nb sc3
            ok3]
        obtain f g' evs where r:
          "player_turn g3 = Inr (f, g')" "wire g' = wire g3 @ evs" "deck_ok (deck g')"
          "player_sum g3 = calculate_sum (player_cards g3) \<longrightarrow>
             player_sum g' = calculate_sum (player_cards g')"
          "dealer_cards g' = dealer_cards g3" "dealer_sum g' = dealer_sum g3"
          "f = Fallthrough \<or> f = Returned None \<or>
            (f = Returned (Some (str_lit ''loss'')) \<and> 21 < player_sum g')"
          "if player_sum g3 < 21 then take 1 evs = [Received (next_recv g3)]
            else evs = [] \<and> f = Fallthrough \<and> g' = g3"
          "f \<noteq> Fallthrough \<or> 21 \<le> player_sum g' \<or>
            (evs \<noteq> [] \<and>
             is_card_msg RESULT_ROUND_NOT_OVER (0, SuitChr (str_lit ''H'')) (last evs))"
          by blast
        have last3: "f \<noteq> Fallthrough \<or> 21 \<le> player_sum g' \<or>
            is_card_msg RESULT_ROUND_NOT_OVER (0, SuitChr (str_lit ''H''))
              (last (Received (next_recv g) # ev # evs))"
          using r(9) by auto
        show ?thesis
          using step r(1-7) last3 g1 True sm3
          by (intro exI [of _ f] exI [of _ g'] exI [of _ "Received (next_recv g) # ev # evs"])
             (simp add: g3_def g2_def)
      qed
    qed
  qed
qed

section \<open>Dealing, revealing and resolving\<close>

lemma dealer_reveal_ok:
  assumes "c \<in> set full_deck"
  shows "\<exists>ev. is_card_msg RESULT_ROUND_NOT_OVER c ev \<and>
           dealer_reveal c g =
             Inr (g\<lparr>dealer_sum := calculate_sum (dealer_cards g), wire := wire g @ [ev]\<rparr>)"
proof -
  from send_card_ok [OF assms, of RESULT_ROUND_NOT_OVER
      "g\<lparr>dealer_sum := calculate_sum (dealer_cards g)\<rparr>"]
  show ?thesis
    by (auto simp: dealer_reveal_def card_to_string_ok [OF assms] RESULT_ROUND_NOT_OVER_def)
qed

lemma determine_winner_eq:
  "\<exists>ev. is_card_msg
           (if 21 < dealer_sum g then RESULT_WIN
            else if dealer_sum g < player_sum g then RESULT_WIN
            else if player_sum g < dealer_sum g then RESULT_LOSS
            else RESULT_TIE) (0, SuitChr (str_lit ''H'')) ev \<and>
         determine_winner g =
           Inr (Some (if 21 < dealer_sum g then str_lit ''win''
                      else if dealer_sum g < player_sum g then str_lit ''win''
                      else if player_sum g < dealer_sum g then str_lit ''loss''
                      else str_lit ''tie''),
                g\<lparr>wire := wire g @ [ev]\<rparr>)"
proof -
  have w: "\<exists>ev. is_card_msg RESULT_WIN (0, SuitChr (str_lit ''H'')) ev \<and>
             send_card (0, SuitChr (str_lit ''H'')) RESULT_WIN g = Inr (g\<lparr>wire := wire g @ [ev]\<rparr>)"
    by (rule ack_card_ok) (simp_all add: RESULT_WIN_def)
  have l: "\<exists>ev. is_card_msg RESULT_LOSS (0, SuitChr (str_lit ''H'')) ev \<and>
             send_card (0, SuitChr (str_lit ''H'')) RESULT_LOSS g = Inr (g\<lparr>wire := wire g @ [ev]\<rparr>)"
    by (rule ack_card_ok) (simp_all add: RESULT_LOSS_def)
  have t: "\<exists>ev. is_card_msg RESULT_TIE (0, SuitChr (str_lit ''H'')) ev \<and>
             send_card (0, SuitChr (str_lit ''H'')) RESULT_TIE g = Inr (g\<lparr>wire := wire g @ [ev]\<rparr>)"
    by (rule ack_card_ok) (simp_all add: RESULT_TIE_def)
  show ?thesis
    using w l t by (auto simp: determine_winner_def)
qed

lemma deal_initial_ok:
  "\<exists>card1 card2 dealer_card1 dealer_card2 d e1 e2 e3.
     deal_initial g0 =
       Inr (dealer_card2,
            g0\<lparr>deck := d, player_cards := [card1, card2],
                player_sum := calculate_sum [card1, card2],
                dealer_cards := [dealer_card1, dealer_card2],
                wire := wire g0 @ [e1, e2, e3]\<rparr>) \<and>
     deck_ok d \<and> dealer_card2 \<in> set full_deck \<and>
     is_card_msg RESULT_ROUND_NOT_OVER card1 e1 \<and>
     is_card_msg RESULT_ROUND_NOT_OVER card2 e2 \<and>
     is_card_msg RESULT_ROUND_NOT_OVER dealer_card1 e3"
proof -
  have ok0: "deck_ok (reset (deck g0))" by (simp add: deck_ok_def reset_set)
  from draw_ok [OF ok0] obtain c1 d1 where
    1: "draw (reset (deck g0)) = Inr (c1, d1)" "c1 \<in> set full_deck" "deck_ok d1" by blast
  from draw_ok [OF 1(3)] obtain c2 d2 where
    2: "draw d1 = Inr (c2, d2)" "c2 \<in> set full_deck" "deck_ok d2" by blast
  from draw_ok [OF 2(3)] obtain c3 d3 where
    3: "draw d2 = Inr (c3, d3)" "c3 \<in> set full_deck" "deck_ok d3" by blast
  from draw_ok [OF 3(3)] obtain c4 d4 where
    4: "draw d3 = Inr (c4, d4)" "c4 \<in> set full_deck" "deck_ok d4" by blast
  define g1 where "g1 = g0\<lparr>deck := d4, player_cards := [c1, c2],
      player_sum := calculate_sum [c1, c2], dealer_cards := [c3, c4]\<rparr>"
  have n: "0 \<le> RESULT_ROUND_NOT_OVER" "RESULT_ROUND_NOT_OVER < 256"
    by (simp_all add: RESULT_ROUND_NOT_OVER_def)
  from send_card_ok [OF 1(2) n, of g1] obtain e1 where
    e1: "is_card_msg RESULT_ROUND_NOT_OVER c1 e1"
      "send_card c1 RESULT_ROUND_NOT_OVER g1 = Inr (g1\<lparr>wire := wire g1 @ [e1]\<rparr>)" by blast
  from send_card_ok [OF 2(2) n, of "g1\<lparr>wire := wire g1 @ [e1]\<rparr>"] obtain e2 where
    e2: "is_card_msg RESULT_ROUND_NOT_OVER c2 e2"
      "send_card c2 RESULT_ROUND_NOT_OVER (g1\<lparr>wire := wire g1 @ [e1]\<rparr>) =
         Inr (g1\<lparr>wire := wire g1 @ [e1, e2]\<rparr>)" by auto
  from send_card_ok [OF 3(2) n, of "g1\<lparr>wire := wire g1 @ [e1, e2]\<rparr>"] obtain e3 where
    e3: "is_card_msg RESULT_ROUND_NOT_OVER c3 e3"
      "send_card c3 RESULT_ROUND_NOT_OVER (g1\<lparr>wire := wire g1 @ [e1, e2]\<rparr>) =
         Inr (g1\<lparr>wire := wire g1 @ [e1, e2, e3]\<rparr>)" by auto
  have "deal_initial g0 = Inr (c4, g1\<lparr>wire := wire g1 @ [e1, e2, e3]\<rparr>)"
    using 1(1) 2(1) 3(1) 4(1) e1(2) e2(2) e3(2)
    by (simp add: deal_initial_def Let_def card_to_string_ok [OF 1(2)] card_to_string_ok [OF 2(2)]
        card_to_string_ok [OF 3(2)] g1_def)
  then show ?thesis
    using 4 e1(1) e2(1) e3(1)
    by (intro exI [of _ c1] exI [of _ c2] exI [of _ c3] exI [of _ c4] exI [of _ d4]
          exI [of _ e1] exI [of _ e2] exI [of _ e3]) (simp add: g1_def)
qed

lemma calculate_sum_suit: "calculate_sum (map (\<lambda>c. (fst c, s)) hand) = calculate_sum hand"
  by (induction hand) (simp_all add: calculate_sum_Nil calculate_sum_Cons)

lemma play_round_resolved:
  assumes pr: "play_round g0 = Inr (Some r, g')" and le: "player_sum g' \<le> 21"
  shows "\<exists>g. determine_winner g = Inr (Some r, g') \<and>
           player_sum g = calculate_sum (player_cards g) \<and>
           dealer_sum g = calculate_sum (dealer_cards g) \<and>
           17 \<le> dealer_sum g \<and>
           player_sum g' = player_sum g \<and> dealer_sum g' = dealer_sum g \<and>
           player_cards g' = player_cards g \<and> dealer_cards g' = dealer_cards g"
proof -
  from deal_initial_ok [of g0] obtain dc2 ga where
    di: "deal_initial g0 = Inr (dc2, ga)" and oka: "deck_ok (deck ga)"
    and dc2: "dc2 \<in> set full_deck" and sma: "player_sum ga = calculate_sum (player_cards ga)"
    by (elim exE conjE) simp
  from player_turn_run [OF oka] sma obtain f gb where
    pt: "player_turn ga = Inr (f, gb)" and okb: "deck_ok (deck gb)"
    and smb: "player_sum gb = calculate_sum (player_cards gb)"
    and fl: "f = Fallthrough \<or> f = Returned None \<or>
            (f = Returned (Some (str_lit ''loss'')) \<and> 21 < player_sum gb)"
    by blast
  have pr': "round_from_player_turn dc2 ga = Inr (Some r, g')"
    using pr di by (simp add: play_round_def)
  have f: "f = Fallthrough"
  proof (rule ccontr)
    assume "f \<noteq> Fallthrough"
    with fl consider "f = Returned None"
      | "f = Returned (Some (str_lit ''loss''))" "21 < player_sum gb" by blast
    then show False
    proof cases
      case 1
      with pr' pt show False by (simp add: round_from_player_turn_def)
    next
      case 2
      with pr' pt have "g' = gb" by (simp add: round_from_player_turn_def)
      with 2 le show False by simp
    qed
  qed
  from dealer_reveal_ok [OF dc2, of gb] obtain ev where
    rv: "dealer_reveal dc2 gb =
           Inr (gb\<lparr>dealer_sum := calculate_sum (dealer_cards gb), wire := wire gb @ [ev]\<rparr>)"
    by blast
  define gc where "gc = gb\<lparr>dealer_sum := calculate_sum (dealer_cards gb), wire := wire gb @ [ev]\<rparr>"
  have okc: "deck_ok (deck gc)" and smc: "dealer_sum gc = calculate_sum (dealer_cards gc)"
    using okb by (simp_all add: gc_def)
  from dealer_turn_run [OF okc smc] obtain gd where
    dt: "dealer_turn gc = Inr gd" and ge: "17 \<le> dealer_sum gd"
    and smd: "dealer_sum gd = calculate_sum (dealer_cards gd)"
    and pc: "player_cards gd = player_cards gc" and ps: "player_sum gd = player_sum gc"
    by blast
  have dw: "determine_winner gd = Inr (Some r, g')"
    using pr' pt f rv dt by (simp add: round_from_player_turn_def dealer_phase_def gc_def)
  from determine_winner_eq [of gd] dw obtain ev' where g': "g' = gd\<lparr>wire := wire gd @ [ev']\<rparr>"
    by auto
  show ?thesis
    using dw ge smd pc ps smb g'
    by (intro exI [of _ gd]) (simp add: gc_def)
qed

text \<open>
  C3. Round resolution. In every state in which the player has not busted (player total at
  most 21) \<open>determine_winner\<close> sends exactly one final message, the dummy card
  \<open>(0, 'H')\<close> with the result code, and returns the result: win (\<open>RESULT_WIN\<close>) if
  the dealer total is above 21; otherwise win if the player total is above the dealer
  total, loss (\<open>RESULT_LOSS\<close>) if the dealer total is above the player total, and tie
  (\<open>RESULT_TIE\<close>) if the totals are equal. The result is a function of the two totals
  only. Every round that \<open>play_round\<close> ends with a result and a player total of at most
  21 ends by this step, taken with both totals equal to the sums of the hands and a dealer
  total of at least 17. The total of a hand does not depend on the suits of its cards.
\<close>

theorem round_resolution:
  "(player_sum g \<le> 21 \<longrightarrow>
      (\<exists>r code ev.
         determine_winner g = Inr (Some r, g\<lparr>wire := wire g @ [ev]\<rparr>) \<and>
         is_card_msg code (0, SuitChr (str_lit ''H'')) ev \<and>
         (21 < dealer_sum g \<longrightarrow> r = str_lit ''win'' \<and> code = RESULT_WIN) \<and>
         (dealer_sum g \<le> 21 \<and> dealer_sum g < player_sum g \<longrightarrow>
            r = str_lit ''win'' \<and> code = RESULT_WIN) \<and>
         (dealer_sum g \<le> 21 \<and> player_sum g < dealer_sum g \<longrightarrow>
            r = str_lit ''loss'' \<and> code = RESULT_LOSS) \<and>
         (dealer_sum g = player_sum g \<longrightarrow> r = str_lit ''tie'' \<and> code = RESULT_TIE))) \<and>
   (play_round g0 = Inr (Some r', g') \<and> player_sum g' \<le> 21 \<longrightarrow>
      (\<exists>g1. determine_winner g1 = Inr (Some r', g') \<and>
         player_sum g1 = calculate_sum (player_cards g1) \<and>
         dealer_sum g1 = calculate_sum (dealer_cards g1) \<and>
         player_sum g1 \<le> 21 \<and> 17 \<le> dealer_sum g1)) \<and>
   calculate_sum (map (\<lambda>c. (fst c, s)) hand) = calculate_sum hand"
proof (intro conjI impI)
  assume le: "player_sum g \<le> 21"
  from determine_winner_eq [of g] obtain ev where
    ev: "is_card_msg
           (if 21 < dealer_sum g then RESULT_WIN
            else if dealer_sum g < player_sum g then RESULT_WIN
            else if player_sum g < dealer_sum g then RESULT_LOSS
            else RESULT_TIE) (0, SuitChr (str_lit ''H'')) ev"
    and dw: "determine_winner g =
           Inr (Some (if 21 < dealer_sum g then str_lit ''win''
                      else if dealer_sum g < player_sum g then str_lit ''win''
                      else if player_sum g < dealer_sum g then str_lit ''loss''
                      else str_lit ''tie''),
                g\<lparr>wire := wire g @ [ev]\<rparr>)"
    by blast
  show "\<exists>r code ev.
         determine_winner g = Inr (Some r, g\<lparr>wire := wire g @ [ev]\<rparr>) \<and>
         is_card_msg code (0, SuitChr (str_lit ''H'')) ev \<and>
         (21 < dealer_sum g \<longrightarrow> r = str_lit ''win'' \<and> code = RESULT_WIN) \<and>
         (dealer_sum g \<le> 21 \<and> dealer_sum g < player_sum g \<longrightarrow>
            r = str_lit ''win'' \<and> code = RESULT_WIN) \<and>
         (dealer_sum g \<le> 21 \<and> player_sum g < dealer_sum g \<longrightarrow>
            r = str_lit ''loss'' \<and> code = RESULT_LOSS) \<and>
         (dealer_sum g = player_sum g \<longrightarrow> r = str_lit ''tie'' \<and> code = RESULT_TIE)"
    using le
    by (intro exI [of _ "if 21 < dealer_sum g then str_lit ''win''
                      else if dealer_sum g < player_sum g then str_lit ''win''
                      else if player_sum g < dealer_sum g then str_lit ''loss''
                      else str_lit ''tie''"]
          exI [of _ "if 21 < dealer_sum g then RESULT_WIN
            else if dealer_sum g < player_sum g then RESULT_WIN
            else if player_sum g < dealer_sum g then RESULT_LOSS
            else RESULT_TIE"] exI [of _ ev] conjI dw ev) auto
next
  assume "play_round g0 = Inr (Some r', g') \<and> player_sum g' \<le> 21"
  then have pr: "play_round g0 = Inr (Some r', g')" and le: "player_sum g' \<le> 21" by simp_all
  from play_round_resolved [OF pr le] le
  show "\<exists>g1. determine_winner g1 = Inr (Some r', g') \<and>
         player_sum g1 = calculate_sum (player_cards g1) \<and>
         dealer_sum g1 = calculate_sum (dealer_cards g1) \<and>
         player_sum g1 \<le> 21 \<and> 17 \<le> dealer_sum g1"
    by auto
next
  show "calculate_sum (map (\<lambda>c. (fst c, s)) hand) = calculate_sum hand"
    by (rule calculate_sum_suit)
qed

theorem round_resolution_witness:
  "(\<exists>ev. determine_winner
            \<lparr>deck = \<lparr>cards = [], random = (\<lambda>i. 0)\<rparr>,
             player_cards = [(10, SuitIdx 3), (9, SuitIdx 1)],
             dealer_cards = [(6, SuitIdx 2), (5, SuitIdx 0), (8, SuitIdx 1)],
             player_sum = 19, dealer_sum = 19, inbox = [], wire = []\<rparr> =
          Inr (Some (str_lit ''tie''),
            \<lparr>deck = \<lparr>cards = [], random = (\<lambda>i. 0)\<rparr>,
             player_cards = [(10, SuitIdx 3), (9, SuitIdx 1)],
             dealer_cards = [(6, SuitIdx 2), (5, SuitIdx 0), (8, SuitIdx 1)],
             player_sum = 19, dealer_sum = 19, inbox = [], wire = [ev]\<rparr>) \<and>
        is_card_msg RESULT_TIE (0, SuitChr (str_lit ''H'')) ev) \<and>
   (\<exists>g' g1.
      play_round
        \<lparr>deck = \<lparr>cards = [], random = (\<lambda>i. 5 * i + 1)\<rparr>, player_cards = [],
         dealer_cards = [], player_sum = 0, dealer_sum = 0,
         inbox = [Inr [0xab, 0xcd, 0xdc, 0xba, 4, 0x48, 0x69, 0x74, 0x74, 0x74],
                  Inr [0xab, 0xcd, 0xdc, 0xba, 4, 0x53, 0x74, 0x61, 0x6e, 0x64]],
         wire = []\<rparr> = Inr (Some (str_lit ''win''), g') \<and>
      player_sum g' = 19 \<and> dealer_sum g' = 23 \<and>
      determine_winner g1 = Inr (Some (str_lit ''win''), g') \<and>
      player_sum g1 \<le> 21 \<and> 17 \<le> dealer_sum g1)"
proof -
  let ?g19 = "\<lparr>deck = \<lparr>cards = [], random = (\<lambda>i. 0)\<rparr>,
             player_cards = [(10, SuitIdx 3), (9, SuitIdx 1)],
             dealer_cards = [(6, SuitIdx 2), (5, SuitIdx 0), (8, SuitIdx 1)],
             player_sum = 19, dealer_sum = 19, inbox = [], wire = []\<rparr>"
  let ?g0 = "\<lparr>deck = \<lparr>cards = [], random = (\<lambda>i. 5 * i + 1)\<rparr>, player_cards = [],
         dealer_cards = [], player_sum = 0, dealer_sum = 0,
         inbox = [Inr [0xab, 0xcd, 0xdc, 0xba, 4, 0x48, 0x69, 0x74, 0x74, 0x74],
                  Inr [0xab, 0xcd, 0xdc, 0xba, 4, 0x53, 0x74, 0x61, 0x6e, 0x64]],
         wire = []\<rparr>"
  have run: "map_sum id (\<lambda>(r, g). (r, player_sum g, dealer_sum g)) (play_round ?g0) =
     Inr (Some (str_lit ''win''), 19, 23)"
    by code_simp
  then obtain g' where g': "play_round ?g0 = Inr (Some (str_lit ''win''), g')"
    "player_sum g' = 19" "dealer_sum g' = 23"
    by (cases "play_round ?g0") auto
  from round_resolution [of ?g19, THEN conjunct1]
  have a: "\<exists>ev. determine_winner ?g19 =
          Inr (Some (str_lit ''tie''),
            \<lparr>deck = \<lparr>cards = [], random = (\<lambda>i. 0)\<rparr>,
             player_cards = [(10, SuitIdx 3), (9, SuitIdx 1)],
             dealer_cards = [(6, SuitIdx 2), (5, SuitIdx 0), (8, SuitIdx 1)],
             player_sum = 19, dealer_sum = 19, inbox = [], wire = [ev]\<rparr>) \<and>
        is_card_msg RESULT_TIE (0, SuitChr (str_lit ''H'')) ev"
    by auto
  from round_resolution [of _ ?g0 "str_lit ''win''" g', THEN conjunct2, THEN conjunct1] g'
  obtain g1 where
    "determine_winner g1 = Inr (Some (str_lit ''win''), g')" "player_sum g1 \<le> 21"
    "17 \<le> dealer_sum g1"
    by auto
  with g' have b: "\<exists>g' g1. play_round ?g0 = Inr (Some (str_lit ''win''), g') \<and>
      player_sum g' = 19 \<and> dealer_sum g' = 23 \<and>
      determine_winner g1 = Inr (Some (str_lit ''win''), g') \<and>
      player_sum g1 \<le> 21 \<and> 17 \<le> dealer_sum g1"
    by blast
  from a b show ?thesis by (intro conjI)
qed

section \<open>Hit, bust and solicitation\<close>

lemma dealer_phase_run:
  assumes ok: "deck_ok (deck g)" and c: "dealer_card2 \<in> set full_deck"
  shows "\<exists>r g' ev evs.
           dealer_phase dealer_card2 g = Inr (Some r, g') \<and>
           wire g' = wire g @ ev # evs \<and>
           is_card_msg RESULT_ROUND_NOT_OVER dealer_card2 ev"
proof -
  from dealer_reveal_ok [OF c, of g] obtain ev where
    ev: "is_card_msg RESULT_ROUND_NOT_OVER dealer_card2 ev" and
    rv: "dealer_reveal dealer_card2 g =
           Inr (g\<lparr>dealer_sum := calculate_sum (dealer_cards g), wire := wire g @ [ev]\<rparr>)"
    by blast
  define gc where "gc = g\<lparr>dealer_sum := calculate_sum (dealer_cards g), wire := wire g @ [ev]\<rparr>"
  have okc: "deck_ok (deck gc)" and smc: "dealer_sum gc = calculate_sum (dealer_cards gc)"
    using ok by (simp_all add: gc_def)
  from dealer_turn_run [OF okc smc] obtain gd evs where
    dt: "dealer_turn gc = Inr gd" and wd: "wire gd = wire gc @ evs"
    by blast
  from determine_winner_eq [of gd] obtain r ev' where
    dw: "determine_winner gd = Inr (Some r, gd\<lparr>wire := wire gd @ [ev']\<rparr>)"
    by blast
  have "dealer_phase dealer_card2 g = Inr (Some r, gd\<lparr>wire := wire gd @ [ev']\<rparr>)"
    using rv dt dw by (simp add: dealer_phase_def gc_def)
  moreover have "wire (gd\<lparr>wire := wire gd @ [ev']\<rparr>) = wire g @ ev # (evs @ [ev'])"
    using wd by (simp add: gc_def)
  ultimately show ?thesis using ev by blast
qed

text \<open>
  C5. In the player's turn (player total below 21, well-formed deck), when the server
  receives a "hit" it draws one card \<open>c\<close> and recomputes the player total over all the
  player's cards. If the new total exceeds 21, the round returns "loss" at once: the only
  events after the received action are the sending of \<open>c\<close> tagged \<open>RESULT_LOSS\<close>; no
  hole card, no dealer draw and no final result message follow. If the new total is 21 or
  less, \<open>c\<close> is sent tagged \<open>RESULT_ROUND_NOT_OVER\<close> and the round continues at the head
  of the player's loop in the updated state.
\<close>

theorem hit_draws_one_card:
  assumes ok: "deck_ok (deck g)" and lt: "player_sum g < 21"
    and ra: "receive_action g = (Some (str_lit ''hit''), g1)"
  shows "\<exists>c d ev_loss ev_next.
     draw (deck g) = Inr (c, d) \<and>
     is_card_msg RESULT_LOSS c ev_loss \<and>
     is_card_msg RESULT_ROUND_NOT_OVER c ev_next \<and>
     (21 < calculate_sum (player_cards g @ [c]) \<longrightarrow>
        round_from_player_turn dealer_card2 g =
          Inr (Some (str_lit ''loss''),
               g\<lparr>inbox := tl (inbox g), deck := d,
                   player_cards := player_cards g @ [c],
                   player_sum := calculate_sum (player_cards g @ [c]),
                   wire := wire g @ [Received (next_recv g), ev_loss]\<rparr>)) \<and>
     (calculate_sum (player_cards g @ [c]) \<le> 21 \<longrightarrow>
        player_turn g =
          player_turn
            (g\<lparr>inbox := tl (inbox g), deck := d,
                player_cards := player_cards g @ [c],
                player_sum := calculate_sum (player_cards g @ [c]),
                wire := wire g @ [Received (next_recv g), ev_next]\<rparr>) \<and>
        round_from_player_turn dealer_card2 g =
          round_from_player_turn dealer_card2
            (g\<lparr>inbox := tl (inbox g), deck := d,
                player_cards := player_cards g @ [c],
                player_sum := calculate_sum (player_cards g @ [c]),
                wire := wire g @ [Received (next_recv g), ev_next]\<rparr>))"
proof -
  note g1 = receive_action_state [OF ra]
  from draw_ok [OF ok] obtain c d
    where dr: "draw (deck g) = Inr (c, d)" and c: "c \<in> set full_deck"
    by blast
  have dr1: "draw (deck g1) = Inr (c, d)" using dr g1 by simp
  have cs: "card_to_string (fst c) (snd c) = Inr ()" by (rule card_to_string_ok [OF c])
  define g2 where "g2 = g1\<lparr>deck := d, player_cards := player_cards g1 @ [c],
                          player_sum := calculate_sum (player_cards g1 @ [c])\<rparr>"
  from send_card_ok [OF c, of RESULT_LOSS g2] obtain ev_loss where
    el: "is_card_msg RESULT_LOSS c ev_loss"
      "send_card c RESULT_LOSS g2 = Inr (g2\<lparr>wire := wire g2 @ [ev_loss]\<rparr>)"
    by (auto simp: RESULT_LOSS_def)
  from send_card_ok [OF c, of RESULT_ROUND_NOT_OVER g2] obtain ev_next where
    en: "is_card_msg RESULT_ROUND_NOT_OVER c ev_next"
      "send_card c RESULT_ROUND_NOT_OVER g2 = Inr (g2\<lparr>wire := wire g2 @ [ev_next]\<rparr>)"
    by (auto simp: RESULT_ROUND_NOT_OVER_def)
  have pc: "player_cards g1 = player_cards g" using g1 by simp
  have bust: "round_from_player_turn dealer_card2 g =
          Inr (Some (str_lit ''loss''),
               g\<lparr>inbox := tl (inbox g), deck := d,
                   player_cards := player_cards g @ [c],
                   player_sum := calculate_sum (player_cards g @ [c]),
                   wire := wire g @ [Received (next_recv g), ev_loss]\<rparr>)"
    if b: "21 < calculate_sum (player_cards g @ [c])"
  proof -
    from b have b1: "21 < calculate_sum (player_cards g1 @ [c])" by (simp add: pc)
    from player_turn_bust [OF lt ra dr1 cs b1 el(2) [unfolded g2_def]]
    have "player_turn g = Inr (Returned (Some (str_lit ''loss'')), g2\<lparr>wire := wire g2 @ [ev_loss]\<rparr>)"
      by (simp add: g2_def)
    then show ?thesis
      by (simp add: round_from_player_turn_def g2_def g1)
  qed
  have cont: "player_turn g =
          player_turn
            (g\<lparr>inbox := tl (inbox g), deck := d,
                player_cards := player_cards g @ [c],
                player_sum := calculate_sum (player_cards g @ [c]),
                wire := wire g @ [Received (next_recv g), ev_next]\<rparr>)"
    if b: "calculate_sum (player_cards g @ [c]) \<le> 21"
  proof -
    from b have b1: "\<not> 21 < calculate_sum (player_cards g1 @ [c])" by (simp add: pc)
    from player_turn_hit [OF lt ra dr1 cs b1 en(2) [unfolded g2_def]]
    have "player_turn g = player_turn (g2\<lparr>wire := wire g2 @ [ev_next]\<rparr>)"
      by (simp add: g2_def)
    then show ?thesis
      by (simp add: g2_def g1)
  qed
  show ?thesis
    using dr el(1) en(1) bust cont
    by (intro exI [of _ c] exI [of _ d] exI [of _ ev_loss] exI [of _ ev_next])
       (simp add: round_from_player_turn_def)
qed

text \<open>
  C6. At the head of the player's loop, with a well-formed deck, the server awaits a client
  payload if and only if the player total is below 21: the first event of the player's
  turn is the reception of the next input exactly when the total is below 21. With a total
  of 21 or more the turn ends at once: nothing is received, nothing is sent (no
  acknowledgement as after a "stand", no result), the state is unchanged and the round goes
  on with the dealer's phase. The loop is left for the dealer's phase only with a total of
  at least 21 or after the acknowledgement of a "stand"; and the dealer's phase starts by
  sending the hole card tagged \<open>RESULT_ROUND_NOT_OVER\<close>.
\<close>

theorem solicits_iff_below_21:
  assumes ok: "deck_ok (deck g)"
  shows "\<exists>f g' evs.
     player_turn g = Inr (f, g') \<and> wire g' = wire g @ evs \<and>
     ((\<exists>rest. evs = Received (next_recv g) # rest) \<longleftrightarrow> player_sum g < 21) \<and>
     (21 \<le> player_sum g \<longrightarrow>
        evs = [] \<and> f = Fallthrough \<and> g' = g \<and>
        round_from_player_turn dealer_card2 g = dealer_phase dealer_card2 g) \<and>
     (f = Fallthrough \<longrightarrow>
        21 \<le> player_sum g' \<or>
        (evs \<noteq> [] \<and>
         is_card_msg RESULT_ROUND_NOT_OVER (0, SuitChr (str_lit ''H'')) (last evs))) \<and>
     (f = Fallthrough \<and> dealer_card2 \<in> set full_deck \<longrightarrow>
        (\<exists>r g'' ev rest.
           dealer_phase dealer_card2 g' = Inr (Some r, g'') \<and>
           wire g'' = wire g' @ ev # rest \<and>
           is_card_msg RESULT_ROUND_NOT_OVER dealer_card2 ev))"
proof -
  from player_turn_run [OF ok] obtain f g' evs where r:
    "player_turn g = Inr (f, g')" "wire g' = wire g @ evs" "deck_ok (deck g')"
    "if player_sum g < 21 then take 1 evs = [Received (next_recv g)]
     else evs = [] \<and> f = Fallthrough \<and> g' = g"
    "f \<noteq> Fallthrough \<or> 21 \<le> player_sum g' \<or>
       (evs \<noteq> [] \<and>
        is_card_msg RESULT_ROUND_NOT_OVER (0, SuitChr (str_lit ''H'')) (last evs))"
    by blast
  have iff: "(\<exists>rest. evs = Received (next_recv g) # rest) \<longleftrightarrow> player_sum g < 21"
  proof (cases "player_sum g < 21")
    case True
    with r(4) have "take 1 evs = [Received (next_recv g)]" by simp
    then have "evs = Received (next_recv g) # tl evs" by (cases evs) simp_all
    with True show ?thesis by blast
  next
    case False
    with r(4) show ?thesis by simp
  qed
  have at21: "evs = [] \<and> f = Fallthrough \<and> g' = g \<and>
        round_from_player_turn dealer_card2 g = dealer_phase dealer_card2 g"
    if "21 \<le> player_sum g"
    using that r(1,4) by (simp add: round_from_player_turn_def)
  have reveal: "\<exists>r g'' ev rest.
           dealer_phase dealer_card2 g' = Inr (Some r, g'') \<and>
           wire g'' = wire g' @ ev # rest \<and>
           is_card_msg RESULT_ROUND_NOT_OVER dealer_card2 ev"
    if "dealer_card2 \<in> set full_deck"
    by (rule dealer_phase_run [OF r(3) that])
  show ?thesis
    using r(1,2,5) iff at21 reveal
    by (intro exI [of _ f] exI [of _ g'] exI [of _ evs]) blast
qed

theorem hit_draws_one_card_witness:
  "round_from_player_turn (9, SuitIdx 1)
     \<lparr>deck = \<lparr>cards = [(2, SuitIdx 0), (7, SuitIdx 1)], random = (\<lambda>i. 0)\<rparr>,
      player_cards = [(10, SuitIdx 3), (5, SuitIdx 0)],
      dealer_cards = [(6, SuitIdx 2), (9, SuitIdx 1)],
      player_sum = 15, dealer_sum = 0,
      inbox = [Inr [0xab, 0xcd, 0xdc, 0xba, 4, 0x48, 0x69, 0x74, 0x74, 0x74]], wire = []\<rparr> =
   Inr (Some (str_lit ''loss''),
     \<lparr>deck = \<lparr>cards = [(2, SuitIdx 0)], random = (\<lambda>i. 0)\<rparr>,
      player_cards = [(10, SuitIdx 3), (5, SuitIdx 0), (7, SuitIdx 1)],
      dealer_cards = [(6, SuitIdx 2), (9, SuitIdx 1)],
      player_sum = 22, dealer_sum = 0, inbox = [],
      wire = [Received (Inr [0xab, 0xcd, 0xdc, 0xba, 4, 0x48, 0x69, 0x74, 0x74, 0x74]),
              Sent [0xab, 0xcd, 0xdc, 0xba, 4, 2, 0x30, 0x37, 0x44]]\<rparr>)"
proof -
  let ?hit = "[0xab, 0xcd, 0xdc, 0xba, 4, 0x48, 0x69, 0x74, 0x74, 0x74] :: bytes"
  let ?g = "\<lparr>deck = \<lparr>cards = [(2, SuitIdx 0), (7, SuitIdx 1)], random = (\<lambda>i. 0)\<rparr>,
      player_cards = [(10, SuitIdx 3), (5, SuitIdx 0)],
      dealer_cards = [(6, SuitIdx 2), (9, SuitIdx 1)],
      player_sum = 15, dealer_sum = 0, inbox = [Inr ?hit], wire = []\<rparr>"
  have ok: "deck_ok (deck ?g)" by (simp add: deck_ok_def full_deck_eval)
  have lt: "player_sum ?g < 21" by simp
  have up: "unpack_client_payload ?hit = Inr (Some (str_lit ''hit''))" by code_simp
  have ra: "receive_action ?g = (Some (str_lit ''hit''), ?g\<lparr>inbox := [], wire := [Received (Inr ?hit)]\<rparr>)"
    by (simp add: receive_action_def recv_def up)
  have nr: "next_recv ?g = Inr ?hit" by (simp add: next_recv_def)
  have dr: "draw (deck ?g) = Inr ((7, SuitIdx 1), \<lparr>cards = [(2, SuitIdx 0)], random = (\<lambda>i. 0)\<rparr>)"
    by (simp add: draw_def)
  have pk: "pack_server_payload RESULT_LOSS 7 (SuitIdx 1) =
              Inr [0xab, 0xcd, 0xdc, 0xba, 4, 2, 0x30, 0x37, 0x44]" by code_simp
  have sm: "calculate_sum [(10, SuitIdx 3), (5, SuitIdx 0), (7, SuitIdx 1)] = 22" by code_simp
  from hit_draws_one_card [OF ok lt ra, of "(9, SuitIdx 1)"] obtain c d ev_loss where
    1: "draw (deck ?g) = Inr (c, d)" and 2: "is_card_msg RESULT_LOSS c ev_loss" and
    3: "21 < calculate_sum (player_cards ?g @ [c]) \<longrightarrow>
        round_from_player_turn (9, SuitIdx 1) ?g =
          Inr (Some (str_lit ''loss''),
               ?g\<lparr>inbox := tl (inbox ?g), deck := d,
                   player_cards := player_cards ?g @ [c],
                   player_sum := calculate_sum (player_cards ?g @ [c]),
                   wire := wire ?g @ [Received (next_recv ?g), ev_loss]\<rparr>)"
    by blast
  from 1 dr have c: "c = (7, SuitIdx 1)" and d: "d = \<lparr>cards = [(2, SuitIdx 0)], random = (\<lambda>i. 0)\<rparr>"
    by simp_all
  from 2 have ev: "ev_loss = Sent [0xab, 0xcd, 0xdc, 0xba, 4, 2, 0x30, 0x37, 0x44]"
    by (simp add: is_card_msg_def c pk)
  from 3 show ?thesis
    by (simp add: c d ev nr sm)
qed

theorem solicits_iff_below_21_witness:
  "player_turn
     \<lparr>deck = \<lparr>cards = [(2, SuitIdx 0), (7, SuitIdx 1)], random = (\<lambda>i. 0)\<rparr>,
      player_cards = [(1, SuitIdx 0), (13, SuitIdx 2)],
      dealer_cards = [(6, SuitIdx 2), (9, SuitIdx 1)],
      player_sum = 21, dealer_sum = 0,
      inbox = [Inr [0xab, 0xcd, 0xdc, 0xba, 4, 0x48, 0x69, 0x74, 0x74, 0x74]], wire = []\<rparr> =
   Inr (Fallthrough,
     \<lparr>deck = \<lparr>cards = [(2, SuitIdx 0), (7, SuitIdx 1)], random = (\<lambda>i. 0)\<rparr>,
      player_cards = [(1, SuitIdx 0), (13, SuitIdx 2)],
      dealer_cards = [(6, SuitIdx 2), (9, SuitIdx 1)],
      player_sum = 21, dealer_sum = 0,
      inbox = [Inr [0xab, 0xcd, 0xdc, 0xba, 4, 0x48, 0x69, 0x74, 0x74, 0x74]], wire = []\<rparr>) \<and>
   (\<exists>f g' rest.
      player_turn
        \<lparr>deck = \<lparr>cards = [(2, SuitIdx 0), (7, SuitIdx 1)], random = (\<lambda>i. 0)\<rparr>,
         player_cards = [(10, SuitIdx 0), (10, SuitIdx 2)],
         dealer_cards = [(6, SuitIdx 2), (9, SuitIdx 1)],
         player_sum = 20, dealer_sum = 0,
         inbox = [Inr [0xab, 0xcd, 0xdc, 0xba, 4, 0x53, 0x74, 0x61, 0x6e, 0x64]], wire = []\<rparr> =
        Inr (f, g') \<and>
      wire g' = Received (Inr [0xab, 0xcd, 0xdc, 0xba, 4, 0x53, 0x74, 0x61, 0x6e, 0x64]) # rest)"
proof -
  let ?hit = "[0xab, 0xcd, 0xdc, 0xba, 4, 0x48, 0x69, 0x74, 0x74, 0x74] :: bytes"
  let ?stand = "[0xab, 0xcd, 0xdc, 0xba, 4, 0x53, 0x74, 0x61, 0x6e, 0x64] :: bytes"
  let ?g21 = "\<lparr>deck = \<lparr>cards = [(2, SuitIdx 0), (7, SuitIdx 1)], random = (\<lambda>i. 0)\<rparr>,
      player_cards = [(1, SuitIdx 0), (13, SuitIdx 2)],
      dealer_cards = [(6, SuitIdx 2), (9, SuitIdx 1)],
      player_sum = 21, dealer_sum = 0, inbox = [Inr ?hit], wire = []\<rparr>"
  let ?g20 = "\<lparr>deck = \<lparr>cards = [(2, SuitIdx 0), (7, SuitIdx 1)], random = (\<lambda>i. 0)\<rparr>,
         player_cards = [(10, SuitIdx 0), (10, SuitIdx 2)],
         dealer_cards = [(6, SuitIdx 2), (9, SuitIdx 1)],
         player_sum = 20, dealer_sum = 0, inbox = [Inr ?stand], wire = []\<rparr>"
  have ok21: "deck_ok (deck ?g21)" and ok20: "deck_ok (deck ?g20)"
    by (simp_all add: deck_ok_def full_deck_eval)
  from solicits_iff_below_21 [OF ok21, of "(9, SuitIdx 1)"] obtain f g' where
    "player_turn ?g21 = Inr (f, g')" and
    "21 \<le> player_sum ?g21 \<longrightarrow> f = Fallthrough \<and> g' = ?g21"
    by blast
  then have a: "player_turn ?g21 = Inr (Fallthrough, ?g21)" by simp
  from solicits_iff_below_21 [OF ok20, of "(9, SuitIdx 1)"] obtain f g' evs where
    1: "player_turn ?g20 = Inr (f, g')" "wire g' = wire ?g20 @ evs" and
    2: "(\<exists>rest. evs = Received (next_recv ?g20) # rest) \<longleftrightarrow> player_sum ?g20 < 21"
    by blast
  from 2 obtain rest where "evs = Received (Inr ?stand) # rest"
    by (auto simp: next_recv_def)
  with 1 have b: "\<exists>f g' rest. player_turn ?g20 = Inr (f, g') \<and> wire g' = Received (Inr ?stand) # rest"
    by simp
  from a b show ?thesis by (intro conjI)
qed

end
